theory Spec2Isabelle
  imports Main
begin

section \<open>The program graph\<close>

text \<open>
  The pass of \<^verbatim>\<open>src/HoistAnticipatedExpressions.cpp\<close> works on a function of the host
  compiler: basic blocks of instructions, linked by successor edges. An instruction is
  known to the pass by its address (\<^verbatim>\<open>Instruction *\<close>), a block by its address
  (\<^verbatim>\<open>BasicBlock *\<close>). Addresses are natural numbers here: an instruction address indexes
  the arena \<open>insts\<close>, a block address indexes the list \<open>blocks\<close>, and block \<open>0\<close> is the
  entry block. The sets of the pass are \<^verbatim>\<open>std::set<Instruction *>\<close>, ordered by address:
  they are strictly ascending lists of addresses, and a loop over such a set visits it
  in that order.
\<close>

text \<open>An operand is a Value: the result of an instruction, a parameter or a constant.\<close>

datatype val = VInst nat | VArg nat | VConst int

text \<open>
  The opcode decides which class of the host an instruction belongs to
  (\<^verbatim>\<open>isa<AllocaInst>\<close>, \<^verbatim>\<open>dyn_cast<CallInst>\<close>, \<^verbatim>\<open>isa<PHINode>\<close>, \<^verbatim>\<open>isTerminator()\<close>);
  the opcodes the pass does not tell apart are numbered.
\<close>

datatype opcode = Alloca | Call | PHI | Terminator nat | Other nat

text \<open>The callee of a direct call: its name, and which of its types are pointers.\<close>

record callee =
  fname :: string
  returnsPointer :: bool
  argIsPointer :: "bool list"

record inst =
  opcode :: opcode
  operands :: "val list"
  mayReadFromMemory :: bool
  mayHaveSideEffects :: bool
  calledFunction :: "callee option"

record block =
  body :: "nat list"
  succs :: "nat list"

record func =
  insts :: "inst list"
  blocks :: "block list"

definition isTerminator :: "inst \<Rightarrow> bool" where
  "isTerminator I = (case opcode I of Terminator k \<Rightarrow> True | _ \<Rightarrow> False)"

text \<open>What an address that is not in the arena reads as: an instruction with no operand.\<close>

definition no_inst :: inst where
  "no_inst = \<lparr>opcode = Other 0, operands = [], mayReadFromMemory = False,
     mayHaveSideEffects = False, calledFunction = None\<rparr>"

definition inst_at :: "func \<Rightarrow> nat \<Rightarrow> inst" where
  "inst_at F i = (if i < length (insts F) then insts F ! i else no_inst)"

definition body_of :: "func \<Rightarrow> nat \<Rightarrow> nat list" where
  "body_of F BB = (if BB < length (blocks F) then body (blocks F ! BB) else [])"

definition succs_of :: "func \<Rightarrow> nat \<Rightarrow> nat list" where
  "succs_of F BB = (if BB < length (blocks F) then succs (blocks F ! BB) else [])"

text \<open>Every instruction of the function, block after block.\<close>

definition all_insts :: "func \<Rightarrow> nat list" where
  "all_insts F = concat (map body (blocks F))"

text \<open>\<^verbatim>\<open>I->getParent()\<close>: the block that holds the instruction.\<close>

definition getParent :: "func \<Rightarrow> nat \<Rightarrow> nat option" where
  "getParent F i = (case filter (\<lambda>BB. i \<in> set (body_of F BB)) [0..<length (blocks F)] of
       [] \<Rightarrow> None | BB # rest \<Rightarrow> Some BB)"

text \<open>\<^verbatim>\<open>I.uses()\<close>, by user: the instructions of the function that have \<open>i\<close> as an operand.\<close>

definition users :: "func \<Rightarrow> nat \<Rightarrow> nat list" where
  "users F i = filter (\<lambda>u. VInst i \<in> set (operands (inst_at F u))) (all_insts F)"

section \<open>Purity classifier\<close>

text \<open>
  \<^verbatim>\<open>isFunctionPure\<close>, lines 66 to 85. \<open>TLI\<close> is the host's table of library functions:
  \<open>TLI n\<close> holds when \<^verbatim>\<open>TLI.getLibFunc\<close> knows the name \<open>n\<close>.
\<close>

definition isFunctionPure :: "(string \<Rightarrow> bool) \<Rightarrow> inst \<Rightarrow> bool" where
  "isFunctionPure TLI CI =
     (case calledFunction CI of
        None \<Rightarrow> False
      | Some Called \<Rightarrow>
          if returnsPointer Called then False
          else if list_ex (\<lambda>p. p) (argIsPointer Called) then False
          else if \<not> TLI (fname Called) then False
          else True)"

text \<open>\<^verbatim>\<open>isToBeIgnored\<close>, lines 87 to 94.\<close>

definition isToBeIgnored :: "(string \<Rightarrow> bool) \<Rightarrow> inst \<Rightarrow> bool" where
  "isToBeIgnored TLI I =
     (if opcode I = Alloca then True
      else if opcode I = Call then \<not> isFunctionPure TLI I
      else mayReadFromMemory I \<or> mayHaveSideEffects I \<or> isTerminator I)"

section \<open>Structural equivalence\<close>

text \<open>
  Modelled from the spec: \<^verbatim>\<open>Instruction::isIdenticalTo\<close> belongs to the host compiler and
  is not part of the repository. Section 4.2 of the specification gives it: the same
  opcode, and the same operands in the same order, an operand compared by the identity
  of the Value.
\<close>

fun same_operands :: "val list \<Rightarrow> val list \<Rightarrow> bool" where
  "same_operands [] [] = True"
| "same_operands (v # vs) (w # ws) = (v = w \<and> same_operands vs ws)"
| "same_operands vs ws = False"

definition identical :: "inst \<Rightarrow> inst \<Rightarrow> bool" where
  "identical A B = (opcode A = opcode B \<and> same_operands (operands A) (operands B))"

definition isIdenticalTo :: "func \<Rightarrow> nat \<Rightarrow> nat \<Rightarrow> bool" where
  "isIdenticalTo F a b = identical (inst_at F a) (inst_at F b)"

section \<open>Set builder\<close>

text \<open>The four maps of one round, \<^verbatim>\<open>std::map<BasicBlock *, std::set<Instruction *>>\<close>.\<close>

record sets =
  UseSets :: "nat \<Rightarrow> nat list"
  DefSets :: "nat \<Rightarrow> nat list"
  InSets :: "nat \<Rightarrow> nat list"
  OutSets :: "nat \<Rightarrow> nat list"

definition no_sets :: sets where
  "no_sets = \<lparr>UseSets = (\<lambda>BB. []), DefSets = (\<lambda>BB. []), InSets = (\<lambda>BB. []),
     OutSets = (\<lambda>BB. [])\<rparr>"

text \<open>\<^verbatim>\<open>findUseSet\<close>, lines 96 to 102.\<close>

definition findUseSet :: "(string \<Rightarrow> bool) \<Rightarrow> func \<Rightarrow> nat \<Rightarrow> sets \<Rightarrow> sets" where
  "findUseSet TLI F BB S =
     S\<lparr>UseSets := (UseSets S)(BB :=
        fold (\<lambda>I acc. if \<not> isToBeIgnored TLI (inst_at F I) \<and> opcode (inst_at F I) \<noteq> PHI
                      then insort_insert I acc else acc)
          (body_of F BB) (UseSets S BB))\<rparr>"

text \<open>\<^verbatim>\<open>findDefSet\<close>, lines 104 to 111: the inner loop over the uses of \<open>I\<close>, then the outer
  loop over the block.\<close>

definition def_uses :: "func \<Rightarrow> nat \<Rightarrow> nat \<Rightarrow> nat list \<Rightarrow> nat list" where
  "def_uses F BB I acc0 =
     fold (\<lambda>UI acc. if getParent F UI = Some BB then insort_insert UI acc else acc)
       (users F I) acc0"

definition findDefSet :: "func \<Rightarrow> nat \<Rightarrow> sets \<Rightarrow> sets" where
  "findDefSet F BB S =
     S\<lparr>DefSets := (DefSets S)(BB := fold (def_uses F BB) (body_of F BB) (DefSets S BB))\<rparr>"

section \<open>Anticipation solver\<close>

text \<open>\<^verbatim>\<open>findInSet\<close>, lines 113 to 127: the loop over \<open>Out\<close>, then the loop over \<open>Use\<close>.\<close>

definition in_loop :: "func \<Rightarrow> nat list \<Rightarrow> nat list \<Rightarrow> nat list \<Rightarrow> nat list" where
  "in_loop F Defs Is acc0 =
     fold (\<lambda>I acc. if \<not> list_ex (\<lambda>DI. isIdenticalTo F I DI) Defs
                   then insort_insert I acc else acc) Is acc0"

definition findInSet :: "func \<Rightarrow> nat \<Rightarrow> sets \<Rightarrow> sets" where
  "findInSet F BB S =
     S\<lparr>InSets := (InSets S)(BB :=
        in_loop F (DefSets S BB) (UseSets S BB)
          (in_loop F (DefSets S BB) (OutSets S BB) (InSets S BB)))\<rparr>"

text \<open>
  \<^verbatim>\<open>findOutSet\<close>, lines 129 to 158. \<open>count\<close> is a \<^verbatim>\<open>std::map<Instruction *, int>\<close>: a list of
  pairs, ascending in the key. \<open>seen\<close> holds the keys whose flag is set; a key that was
  never written reads as unset.
\<close>

fun count_put :: "nat \<Rightarrow> int \<Rightarrow> (nat \<times> int) list \<Rightarrow> (nat \<times> int) list" where
  "count_put I n [] = [(I, n)]"
| "count_put I n ((k, c) # kvs) =
     (if I = k then (k, n) # kvs
      else if I < k then (I, n) # (k, c) # kvs
      else (k, c) # count_put I n kvs)"

text \<open>Lines 144 to 149: one instruction \<open>I\<close> of a successor's In set against every key.\<close>

fun tally :: "func \<Rightarrow> nat \<Rightarrow> (nat \<times> int) list \<Rightarrow> nat list \<Rightarrow>
    (nat \<times> int) list \<times> nat list \<times> bool" where
  "tally F I [] seen = ([], seen, False)"
| "tally F I ((k, c) # kvs) seen =
     (if isIdenticalTo F I k \<and> k \<notin> set seen
      then (case tally F I kvs (k # seen) of
              (kvs', seen', matched) \<Rightarrow> ((k, c + 1) # kvs', seen', True))
      else (case tally F I kvs seen of
              (kvs', seen', matched) \<Rightarrow> ((k, c) # kvs', seen', matched)))"

text \<open>Lines 142 to 152: the In set of one successor.\<close>

fun tally_succ :: "func \<Rightarrow> nat list \<Rightarrow> (nat \<times> int) list \<Rightarrow> nat list \<Rightarrow> (nat \<times> int) list" where
  "tally_succ F [] count seen = count"
| "tally_succ F (I # Is) count seen =
     (case tally F I count seen of
        (count', seen', matched) \<Rightarrow>
          tally_succ F Is (if matched then count' else count_put I 1 count') seen')"

text \<open>Lines 137 to 153: every successor, each with a fresh \<open>seen\<close>.\<close>

definition tally_all :: "func \<Rightarrow> sets \<Rightarrow> nat list \<Rightarrow> (nat \<times> int) list" where
  "tally_all F S Succs = fold (\<lambda>Succ count. tally_succ F (InSets S Succ) count []) Succs []"

definition findOutSet :: "func \<Rightarrow> nat \<Rightarrow> sets \<Rightarrow> sets" where
  "findOutSet F BB S =
     (let count = tally_all F S (succs_of F BB);
          totalSucc = int (length (succs_of F BB))
      in S\<lparr>OutSets := (OutSets S)(BB :=
            fold (\<lambda>KV acc. if snd KV = totalSucc then insort_insert (fst KV) acc else acc)
              count (OutSets S BB))\<rparr>)"

text \<open>Lines 205 to 210: the body of the analysis loop for one block, and the loop over
  the blocks in the order the traversal gives them.\<close>

definition analyse_block :: "(string \<Rightarrow> bool) \<Rightarrow> func \<Rightarrow> nat \<Rightarrow> sets \<Rightarrow> sets" where
  "analyse_block TLI F BB S = findInSet F BB (findOutSet F BB (findDefSet F BB (findUseSet TLI F BB S)))"

definition analyse :: "(string \<Rightarrow> bool) \<Rightarrow> func \<Rightarrow> nat list \<Rightarrow> sets" where
  "analyse TLI F order = fold (analyse_block TLI F) order no_sets"

section \<open>Graph traversals\<close>

text \<open>
  \<^verbatim>\<open>breadth_first\<close> and \<^verbatim>\<open>post_order\<close> are the host's graph iterators over the successor
  edges. The breadth-first iterator keeps a queue and a visited set and marks a block
  when it enters the queue; the post-order iterator keeps a stack of blocks with the
  successors each has still to look at, marks a block when it enters the stack and
  yields it when it leaves.
\<close>

fun enqueue_new :: "nat list \<Rightarrow> nat list \<Rightarrow> nat list \<Rightarrow> nat list \<times> nat list" where
  "enqueue_new [] q vis = (q, vis)"
| "enqueue_new (c # cs) q vis =
     (if c \<in> set vis then enqueue_new cs q vis else enqueue_new cs (q @ [c]) (c # vis))"

lemma enqueue_new_shape:
  "\<exists>new. enqueue_new cs q vis = (q @ new, rev new @ vis) \<and> length new \<le> length cs \<and>
     set new \<subseteq> set cs - set vis"
proof (induction cs arbitrary: q vis)
  case Nil
  show ?case by simp
next
  case (Cons c cs)
  show ?case
  proof (cases "c \<in> set vis")
    case True
    from Cons.IH [of q vis] obtain new where
      "enqueue_new cs q vis = (q @ new, rev new @ vis)" "length new \<le> length cs"
      "set new \<subseteq> set cs - set vis" by blast
    with True show ?thesis by (intro exI [of _ new]) auto
  next
    case False
    from Cons.IH [of "q @ [c]" "c # vis"] obtain new where
      "enqueue_new cs (q @ [c]) (c # vis) = ((q @ [c]) @ new, rev new @ c # vis)"
      "length new \<le> length cs" "set new \<subseteq> set cs - set (c # vis)" by blast
    with False show ?thesis by (intro exI [of _ "c # new"]) auto
  qed
qed

definition unvisited :: "func \<Rightarrow> nat list \<Rightarrow> nat" where
  "unvisited F vis = card ({..<length (blocks F)} - set vis)"

definition queue_weight :: "func \<Rightarrow> nat list \<Rightarrow> nat" where
  "queue_weight F q = sum_list (map (\<lambda>n. Suc (length (succs_of F n))) q)"

function bf_loop :: "func \<Rightarrow> nat list \<Rightarrow> nat list \<Rightarrow> nat list" where
  "bf_loop F [] vis = []"
| "bf_loop F (n # q) vis =
     (case enqueue_new (succs_of F n) q vis of (q', vis') \<Rightarrow> n # bf_loop F q' vis')"
  by pat_completeness auto

lemma unvisited_mono: "set vis \<subseteq> set vis' \<Longrightarrow> unvisited F vis' \<le> unvisited F vis"
  unfolding unvisited_def by (intro card_mono) auto

lemma unvisited_less:
  "set vis \<subseteq> set vis' \<Longrightarrow> c \<in> set vis' \<Longrightarrow> c \<notin> set vis \<Longrightarrow> c < length (blocks F) \<Longrightarrow>
     unvisited F vis' < unvisited F vis"
  unfolding unvisited_def by (intro psubset_card_mono) auto

lemma queue_weight_new:
  "\<forall>c \<in> set new. \<not> c < length (blocks F) \<Longrightarrow> queue_weight F new = length new"
  unfolding queue_weight_def by (induction new) (auto simp: succs_of_def)

lemma queue_weight_append: "queue_weight F (q @ r) = queue_weight F q + queue_weight F r"
  unfolding queue_weight_def by simp

termination bf_loop
proof (relation "inv_image (less_than <*lex*> less_than)
    (\<lambda>(F, q, vis). (unvisited F vis, queue_weight F q))", goal_cases)
  case 1
  show ?case by (intro wf_inv_image wf_lex_prod wf_less_than)
next
  case (2 F n q vis q' vis')
  from enqueue_new_shape [of "succs_of F n" q vis] 2 obtain new where
    new: "q' = q @ new" "vis' = rev new @ vis" "length new \<le> length (succs_of F n)"
      "set new \<subseteq> set (succs_of F n) - set vis"
    by auto
  show ?case
  proof (cases "\<exists>c \<in> set new. c < length (blocks F)")
    case True
    then obtain c where "c \<in> set new" "c < length (blocks F)" by blast
    then have "unvisited F vis' < unvisited F vis"
      using new by (intro unvisited_less [of _ _ c]) auto
    then show ?thesis by simp
  next
    case False
    have le: "unvisited F vis' \<le> unvisited F vis"
      using new by (intro unvisited_mono) auto
    from False have "queue_weight F new = length new" by (intro queue_weight_new) auto
    then have "queue_weight F q' < queue_weight F (n # q)"
      using new by (simp add: queue_weight_append) (simp add: queue_weight_def)
    with le show ?thesis by auto
  qed
qed

function po_loop :: "func \<Rightarrow> (nat \<times> nat list) list \<Rightarrow> nat list \<Rightarrow> nat list" where
  "po_loop F [] vis = []"
| "po_loop F ((n, []) # st) vis = n # po_loop F st vis"
| "po_loop F ((n, c # cs) # st) vis =
     (if c \<in> set vis then po_loop F ((n, cs) # st) vis
      else po_loop F ((c, succs_of F c) # (n, cs) # st) (c # vis))"
  by pat_completeness auto

definition stack_weight :: "(nat \<times> nat list) list \<Rightarrow> nat" where
  "stack_weight st = sum_list (map (\<lambda>fr. Suc (2 * length (snd fr))) st)"

termination po_loop
proof (relation "inv_image (less_than <*lex*> less_than)
    (\<lambda>(F, st, vis). (unvisited F vis, stack_weight st))", goal_cases)
  case 1
  show ?case by (intro wf_inv_image wf_lex_prod wf_less_than)
next
  case (2 F n st vis)
  show ?case by (simp add: stack_weight_def)
next
  case (3 F n c cs st vis)
  show ?case by (simp add: stack_weight_def)
next
  case (4 F n c cs st vis)
  show ?case
  proof (cases "c < length (blocks F)")
    case True
    with 4 have "unvisited F (c # vis) < unvisited F vis"
      by (intro unvisited_less [of _ _ c]) auto
    then show ?thesis by simp
  next
    case False
    have "unvisited F (c # vis) \<le> unvisited F vis"
      by (intro unvisited_mono) auto
    moreover from False have "succs_of F c = []" by (simp add: succs_of_def)
    ultimately show ?thesis by (auto simp: stack_weight_def)
  qed
qed

definition breadth_first :: "func \<Rightarrow> nat \<Rightarrow> nat list" where
  "breadth_first F BB = bf_loop F [BB] [BB]"

definition post_order :: "func \<Rightarrow> nat \<Rightarrow> nat list" where
  "post_order F BB = po_loop F [(BB, succs_of F BB)] [BB]"

section \<open>Hoister\<close>

text \<open>\<^verbatim>\<open>checkBeforeMove\<close>, lines 160 to 166: the first instruction of the block that is
  identical to \<open>Inst\<close>, or the null pointer.\<close>

definition checkBeforeMove :: "func \<Rightarrow> nat \<Rightarrow> nat \<Rightarrow> nat option" where
  "checkBeforeMove F BB Inst = find (\<lambda>I. isIdenticalTo F I Inst) (body_of F BB)"

text \<open>\<^verbatim>\<open>BB->getTerminator()\<close>: the last instruction of the block when it is a terminator,
  the null pointer otherwise.\<close>

definition getTerminator :: "func \<Rightarrow> nat \<Rightarrow> nat option" where
  "getTerminator F BB =
     (if body_of F BB = [] then None
      else if isTerminator (inst_at F (last (body_of F BB))) then Some (last (body_of F BB))
      else None)"

text \<open>\<^verbatim>\<open>Inst->moveBefore(End)\<close>: the instruction leaves the block that holds it and enters
  the block of \<open>End\<close>, right before \<open>End\<close>. An instruction stands in one block, so the
  model takes it out of every list and puts it before \<open>End\<close> in the list that has \<open>End\<close>.\<close>

fun insert_before :: "nat \<Rightarrow> nat \<Rightarrow> nat list \<Rightarrow> nat list" where
  "insert_before End Inst [] = []"
| "insert_before End Inst (I # Is) =
     (if I = End then Inst # I # Is else I # insert_before End Inst Is)"

definition moveBefore :: "func \<Rightarrow> nat \<Rightarrow> nat \<Rightarrow> func" where
  "moveBefore F Inst End =
     F\<lparr>blocks := map (\<lambda>B. B\<lparr>body := insert_before End Inst (removeAll Inst (body B))\<rparr>)
        (blocks F)\<rparr>"

text \<open>\<^verbatim>\<open>I.replaceAllUsesWith(Inst)\<close>: every operand that is \<open>I\<close> becomes \<open>Inst\<close>, in every
  instruction. (The arena keeps the entry of an erased instruction; nothing reads it.)\<close>

definition replace_operand :: "nat \<Rightarrow> nat \<Rightarrow> inst \<Rightarrow> inst" where
  "replace_operand Old New U =
     U\<lparr>operands := map (\<lambda>v. if v = VInst Old then VInst New else v) (operands U)\<rparr>"

definition replaceAllUsesWith :: "func \<Rightarrow> nat \<Rightarrow> nat \<Rightarrow> func" where
  "replaceAllUsesWith F Old New = F\<lparr>insts := map (replace_operand Old New) (insts F)\<rparr>"

text \<open>\<^verbatim>\<open>I->eraseFromParent()\<close>, for every instruction of \<open>ToDelete\<close> (lines 190 and 191).\<close>

definition eraseFromParent :: "func \<Rightarrow> nat \<Rightarrow> func" where
  "eraseFromParent F I = F\<lparr>blocks := map (\<lambda>B. B\<lparr>body := removeAll I (body B)\<rparr>) (blocks F)\<rparr>"

definition erase_all :: "func \<Rightarrow> nat list \<Rightarrow> func" where
  "erase_all F ToDelete = fold (\<lambda>I F'. eraseFromParent F' I) ToDelete F"

text \<open>Lines 182 to 187: the instructions of every block that can be reached from \<open>BB\<close>, in
  the order the two loops meet them, and the loop body on each.\<close>

definition reach_insts :: "func \<Rightarrow> nat \<Rightarrow> nat list" where
  "reach_insts F BB = concat (map (body_of F) (breadth_first F BB))"

fun replace_dups :: "func \<Rightarrow> nat \<Rightarrow> nat list \<Rightarrow> nat list \<Rightarrow> func \<times> nat list" where
  "replace_dups F Inst [] ToDelete = (F, ToDelete)"
| "replace_dups F Inst (I # Is) ToDelete =
     (if isIdenticalTo F I Inst \<and> I \<noteq> Inst
      then replace_dups (replaceAllUsesWith F I Inst) Inst Is (insort_insert I ToDelete)
      else replace_dups F Inst Is ToDelete)"

text \<open>Lines 173 to 188: the loop over \<open>Out(BB)\<close>. The result is \<open>None\<close> when the block has
  no terminator to move the instruction before (the source passes the null pointer to
  \<^verbatim>\<open>moveBefore\<close>).\<close>

fun hoist_loop :: "func \<Rightarrow> nat \<Rightarrow> nat list \<Rightarrow> bool \<Rightarrow> nat list \<Rightarrow>
    (func \<times> bool \<times> nat list) option" where
  "hoist_loop F BB [] Changed ToDelete = Some (F, Changed, ToDelete)"
| "hoist_loop F BB (Orig # Origs) Changed ToDelete =
     (case checkBeforeMove F BB Orig of
        Some Existing \<Rightarrow>
          (case replace_dups F Existing (reach_insts F BB) ToDelete of
             (F', ToDelete') \<Rightarrow> hoist_loop F' BB Origs True ToDelete')
      | None \<Rightarrow>
          (case getTerminator F BB of
             None \<Rightarrow> None
           | Some End \<Rightarrow>
               (case replace_dups (moveBefore F Orig End) Orig
                       (reach_insts (moveBefore F Orig End) BB) ToDelete of
                  (F', ToDelete') \<Rightarrow> hoist_loop F' BB Origs True ToDelete')))"

text \<open>\<^verbatim>\<open>hoistInstructions\<close>, lines 168 to 194.\<close>

definition hoistInstructions :: "func \<Rightarrow> nat \<Rightarrow> (nat \<Rightarrow> nat list) \<Rightarrow> (bool \<times> func) option" where
  "hoistInstructions F BB Outs =
     (case hoist_loop F BB (Outs BB) False [] of
        None \<Rightarrow> None
      | Some (F', Changed, ToDelete) \<Rightarrow> Some (Changed, erase_all F' ToDelete))"

section \<open>Driver\<close>

text \<open>Lines 212 to 216: the hoister on the blocks in breadth-first order, up to the first
  block that reports a change.\<close>

fun hoist_blocks :: "func \<Rightarrow> (nat \<Rightarrow> nat list) \<Rightarrow> nat list \<Rightarrow> (bool \<times> func) option" where
  "hoist_blocks F Outs [] = Some (False, F)"
| "hoist_blocks F Outs (BB # BBs) =
     (case hoistInstructions F BB Outs of
        None \<Rightarrow> None
      | Some (Changed, F') \<Rightarrow> if Changed then Some (True, F') else hoist_blocks F' Outs BBs)"

text \<open>One round of the loop of \<^verbatim>\<open>run\<close>, lines 202 to 216.\<close>

definition round :: "(string \<Rightarrow> bool) \<Rightarrow> func \<Rightarrow> (bool \<times> func) option" where
  "round TLI F =
     hoist_blocks F (OutSets (analyse TLI F (post_order F 0))) (breadth_first F 0)"

text \<open>\<^verbatim>\<open>run\<close>, lines 196 to 220. The result is \<open>None\<close> when the loop never ends,
  \<open>Some Crashed\<close> when a round passes the null pointer, \<open>Some (Finished F')\<close> when the
  pass returns and leaves the function \<open>F'\<close>.\<close>

datatype outcome = Crashed | Finished func

partial_function (option) run :: "(string \<Rightarrow> bool) \<Rightarrow> func \<Rightarrow> outcome option" where
  "run TLI F =
     (case round TLI F of
        None \<Rightarrow> Some Crashed
      | Some (Changed, F') \<Rightarrow> if Changed then run TLI F' else Some (Finished F'))"

section \<open>The relocatable instructions\<close>

text \<open>The test of line 100, which decides whether \<^verbatim>\<open>findUseSet\<close> takes an instruction: the
  contract \<^verbatim>\<open>isRelocatable\<close> of the specification.\<close>

definition isRelocatable :: "(string \<Rightarrow> bool) \<Rightarrow> inst \<Rightarrow> bool" where
  "isRelocatable TLI I = (\<not> isToBeIgnored TLI I \<and> opcode I \<noteq> PHI)"

section \<open>Sample functions\<close>

text \<open>An instruction that neither reads memory nor has a side effect.\<close>

definition plain :: "opcode \<Rightarrow> val list \<Rightarrow> inst" where
  "plain oc ops = \<lparr>opcode = oc, operands = ops, mayReadFromMemory = False,
     mayHaveSideEffects = False, calledFunction = None\<rparr>"

text \<open>A library table that knows no name; then the sample functions: one block; a block
  before a block that computes the same twice; the same with a second, empty successor;
  a diamond whose two arms compute the same.\<close>

definition no_lib :: "string \<Rightarrow> bool" where
  "no_lib n = False"

definition prog_line :: func where
  "prog_line = \<lparr>insts = [plain (Other 1) [VArg 0, VArg 1], plain (Other 2) [VInst 0, VArg 2],
       plain (Terminator 0) [VInst 1]],
     blocks = [\<lparr>body = [0, 1, 2], succs = []\<rparr>]\<rparr>"

definition prog_twice :: func where
  "prog_twice = \<lparr>insts = [plain (Other 1) [VArg 0, VArg 1], plain (Other 1) [VArg 0, VArg 1],
       plain (Terminator 1) [], plain (Terminator 0) []],
     blocks = [\<lparr>body = [2], succs = [1]\<rparr>, \<lparr>body = [0, 1, 3], succs = []\<rparr>]\<rparr>"

definition prog_fork :: func where
  "prog_fork = \<lparr>insts = [plain (Other 1) [VArg 0, VArg 1], plain (Other 1) [VArg 0, VArg 1],
       plain (Terminator 1) [VArg 2], plain (Terminator 0) [], plain (Terminator 0) []],
     blocks = [\<lparr>body = [2], succs = [1, 2]\<rparr>, \<lparr>body = [0, 1, 3], succs = []\<rparr>,
       \<lparr>body = [4], succs = []\<rparr>]\<rparr>"

definition prog_diamond :: func where
  "prog_diamond = \<lparr>insts = [plain (Terminator 1) [VArg 2], plain (Other 1) [VArg 0, VArg 1],
       plain (Terminator 1) [], plain (Other 1) [VArg 0, VArg 1], plain (Terminator 1) [],
       plain PHI [VInst 1, VInst 3], plain (Terminator 0) [VInst 5]],
     blocks = [\<lparr>body = [0], succs = [1, 2]\<rparr>, \<lparr>body = [1, 2], succs = [3]\<rparr>,
       \<lparr>body = [3, 4], succs = [3]\<rparr>, \<lparr>body = [5, 6], succs = []\<rparr>]\<rparr>"

text \<open>Two library tables that know one name each, and calls of the two routines: both
  take and return an integer; \<open>putchar\<close> has a side effect, \<open>abs\<close> has none.\<close>

definition lib_putchar :: "string \<Rightarrow> bool" where
  "lib_putchar n = (n = ''putchar'')"

definition lib_abs :: "string \<Rightarrow> bool" where
  "lib_abs n = (n = ''abs'')"

definition call_putchar :: inst where
  "call_putchar = \<lparr>opcode = Call, operands = [VArg 0], mayReadFromMemory = True,
     mayHaveSideEffects = True,
     calledFunction = Some \<lparr>fname = ''putchar'', returnsPointer = False, argIsPointer = [False]\<rparr>\<rparr>"

definition call_abs :: inst where
  "call_abs = \<lparr>opcode = Call, operands = [VArg 0], mayReadFromMemory = False,
     mayHaveSideEffects = False,
     calledFunction = Some \<lparr>fname = ''abs'', returnsPointer = False, argIsPointer = [False]\<rparr>\<rparr>"

text \<open>One block with a call of each routine; a function that calls \<open>putchar\<close> in its entry
  block and again in the block after it; and the same function with the second call gone.\<close>

definition prog_call :: func where
  "prog_call = \<lparr>insts = [call_putchar, plain (Terminator 0) []],
     blocks = [\<lparr>body = [0, 1], succs = []\<rparr>]\<rparr>"

definition prog_abs :: func where
  "prog_abs = \<lparr>insts = [call_abs, plain (Terminator 0) []],
     blocks = [\<lparr>body = [0, 1], succs = []\<rparr>]\<rparr>"

definition prog_putchar_twice :: func where
  "prog_putchar_twice = \<lparr>insts = [call_putchar, plain (Terminator 1) [], call_putchar,
       plain (Terminator 0) []],
     blocks = [\<lparr>body = [0, 1], succs = [1]\<rparr>, \<lparr>body = [2, 3], succs = []\<rparr>]\<rparr>"

definition prog_putchar_once :: func where
  "prog_putchar_once = \<lparr>insts = [call_putchar, plain (Terminator 1) [], call_putchar,
       plain (Terminator 0) []],
     blocks = [\<lparr>body = [0, 1], succs = [1]\<rparr>, \<lparr>body = [3], succs = []\<rparr>]\<rparr>"

text \<open>The diamond after the loop of the hoister on the entry block, before the
  deletions, and after the pass.\<close>

definition prog_diamond_moved :: func where
  "prog_diamond_moved = \<lparr>insts = [plain (Terminator 1) [VArg 2], plain (Other 1) [VArg 0, VArg 1],
       plain (Terminator 1) [], plain (Other 1) [VArg 0, VArg 1], plain (Terminator 1) [],
       plain PHI [VInst 1, VInst 1], plain (Terminator 0) [VInst 5]],
     blocks = [\<lparr>body = [1, 0], succs = [1, 2]\<rparr>, \<lparr>body = [2], succs = [3]\<rparr>,
       \<lparr>body = [3, 4], succs = [3]\<rparr>, \<lparr>body = [5, 6], succs = []\<rparr>]\<rparr>"

definition prog_diamond_hoisted :: func where
  "prog_diamond_hoisted = \<lparr>insts = [plain (Terminator 1) [VArg 2], plain (Other 1) [VArg 0, VArg 1],
       plain (Terminator 1) [], plain (Other 1) [VArg 0, VArg 1], plain (Terminator 1) [],
       plain PHI [VInst 1, VInst 1], plain (Terminator 0) [VInst 5]],
     blocks = [\<lparr>body = [1, 0], succs = [1, 2]\<rparr>, \<lparr>body = [2], succs = [3]\<rparr>,
       \<lparr>body = [4], succs = [3]\<rparr>, \<lparr>body = [5, 6], succs = []\<rparr>]\<rparr>"

section \<open>Notions of the proofs\<close>

text \<open>The instructions of a block that use the result of an instruction of the block.\<close>

definition local_users :: "func \<Rightarrow> nat \<Rightarrow> nat set" where
  "local_users F BB = {UI. getParent F UI = Some BB \<and>
      (\<exists>I \<in> set (body_of F BB). VInst I \<in> set (operands (inst_at F UI)))}"

text \<open>What one call of \<^verbatim>\<open>findOutSet\<close> adds: the keys whose tally is the number of successors.\<close>

definition out_new :: "func \<Rightarrow> sets \<Rightarrow> nat \<Rightarrow> nat set" where
  "out_new F S BB = {k. (k, int (length (succs_of F BB))) \<in> set (tally_all F S (succs_of F BB))}"

text \<open>What one call of \<^verbatim>\<open>findUseSet\<close> adds.\<close>

definition use_of :: "(string \<Rightarrow> bool) \<Rightarrow> func \<Rightarrow> nat \<Rightarrow> nat set" where
  "use_of TLI F BB = {I \<in> set (body_of F BB). isRelocatable TLI (inst_at F I)}"

text \<open>The members of Use and Out of a block that are identical to no member of its Def.\<close>

definition kept :: "func \<Rightarrow> sets \<Rightarrow> nat \<Rightarrow> nat set" where
  "kept F S BB = {I \<in> set (UseSets S BB) \<union> set (OutSets S BB).
      \<not> (\<exists>DI \<in> set (DefSets S BB). isIdenticalTo F I DI)}"

text \<open>What holds of the In sets between two blocks of the analysis loop.\<close>

definition in_inv :: "func \<Rightarrow> sets \<Rightarrow> bool" where
  "in_inv F S = (\<forall>B. set (InSets S B) = kept F S B \<and> set (DefSets S B) \<subseteq> local_users F B \<and>
     (set (InSets S B) = {} \<or> set (DefSets S B) = local_users F B))"

text \<open>Every member of a Use, In or Out set has passed the test of \<^verbatim>\<open>findUseSet\<close>.\<close>

definition gate_inv :: "(string \<Rightarrow> bool) \<Rightarrow> func \<Rightarrow> sets \<Rightarrow> bool" where
  "gate_inv TLI F S = (\<forall>B I. I \<in> set (UseSets S B) \<union> set (InSets S B) \<union> set (OutSets S B) \<longrightarrow>
     isRelocatable TLI (inst_at F I))"

text \<open>No instruction at all has \<open>d\<close> as an operand.\<close>

definition arena_unused :: "func \<Rightarrow> nat \<Rightarrow> bool" where
  "arena_unused F d = (\<forall>i. VInst d \<notin> set (operands (inst_at F i)))"

text \<open>What holds of the instructions marked for deletion: each has no use, and the first
  instruction of the block that is identical to it is another one.\<close>

definition marked_ok :: "func \<Rightarrow> nat \<Rightarrow> nat list \<Rightarrow> bool" where
  "marked_ok F BB del = (\<forall>M \<in> set del. arena_unused F M \<and>
     (\<exists>C. checkBeforeMove F BB M = Some C \<and> C \<noteq> M))"

text \<open>No dangling use: every operand of an instruction of the function that is an
  instruction is an instruction of the function.\<close>

definition uses_closed :: "func \<Rightarrow> bool" where
  "uses_closed F = (\<forall>U \<in> set (all_insts F). \<forall>v \<in> set (operands (inst_at F U)).
     case v of VInst I \<Rightarrow> I \<in> set (all_insts F) | _ \<Rightarrow> True)"

text \<open>No instruction of the function has \<open>D\<close> as an operand.\<close>

definition no_use_of :: "func \<Rightarrow> nat \<Rightarrow> bool" where
  "no_use_of F D = (\<forall>U \<in> set (all_insts F). VInst D \<notin> set (operands (inst_at F U)))"

text \<open>The successor edges of the function.\<close>

definition edges :: "func \<Rightarrow> (nat \<times> nat) set" where
  "edges F = {(a, b). b \<in> set (succs_of F a)}"

text \<open>Two functions with the same blocks and the same edges between them.\<close>

definition same_cfg :: "func \<Rightarrow> func \<Rightarrow> bool" where
  "same_cfg F' F = (map succs (blocks F') = map succs (blocks F))"

text \<open>The place of a block in a traversal (the length of the traversal when it is not there).\<close>

fun rank_of :: "nat list \<Rightarrow> nat \<Rightarrow> nat" where
  "rank_of [] b = 0"
| "rank_of (x # xs) b = (if x = b then 0 else Suc (rank_of xs b))"

text \<open>Where the members of the sets stand, between two blocks of the analysis loop: a
  member of In(b) stands in a block that \<open>b\<close> reaches and that the loop met no later, a
  member of Out(b) in one that the loop met earlier.\<close>

definition loc_inv :: "func \<Rightarrow> nat list \<Rightarrow> sets \<Rightarrow> bool" where
  "loc_inv F done S =
     ((\<forall>b x. x \<in> set (UseSets S b) \<longrightarrow> b \<in> set done \<and> x \<in> set (body_of F b)) \<and>
      (\<forall>b x. x \<in> set (InSets S b) \<longrightarrow> b \<in> set done \<and>
         (\<exists>s \<in> set done. x \<in> set (body_of F s) \<and> rank_of done s \<le> rank_of done b \<and>
            (b, s) \<in> (edges F)\<^sup>*)) \<and>
      (\<forall>b x. x \<in> set (OutSets S b) \<longrightarrow> b \<in> set done \<and>
         (\<exists>s \<in> set done. x \<in> set (body_of F s) \<and> rank_of done s < rank_of done b \<and>
            (b, s) \<in> (edges F)\<^sup>+)))"

text \<open>A block weighs the more the earlier the traversal meets it.\<close>

definition weight :: "nat list \<Rightarrow> nat \<Rightarrow> nat" where
  "weight order b = Suc (length order) - rank_of order b"

text \<open>The measure: every instruction counts with the weight of its block.\<close>

definition mu :: "(nat \<Rightarrow> nat) \<Rightarrow> func \<Rightarrow> nat" where
  "mu w F = (\<Sum>b < length (blocks F). length (body_of F b) * w b)"

text \<open>Every block of the function ends in a terminator.\<close>

definition term_ok :: "func \<Rightarrow> bool" where
  "term_ok F = (\<forall>b < length (blocks F). getTerminator F b \<noteq> None)"

text \<open>The instruction at the address is no terminator.\<close>

definition nonterm :: "func \<Rightarrow> nat \<Rightarrow> bool" where
  "nonterm F I = (\<not> isTerminator (inst_at F I))"

text \<open>What the loop of the hoister needs of a candidate.\<close>

definition cand_ok :: "(nat \<Rightarrow> nat) \<Rightarrow> func \<Rightarrow> nat \<Rightarrow> nat \<Rightarrow> bool" where
  "cand_ok w F BB x = (nonterm F x \<and>
     (\<exists>s. x \<in> set (body_of F s) \<and> w BB < w s \<and> s \<in> set (breadth_first F BB) \<and> s \<noteq> BB))"

text \<open>A well-formed function: every instruction stands once, in one block, and every block
  ends in a terminator.\<close>

definition wf_func :: "func \<Rightarrow> bool" where
  "wf_func F = (distinct (all_insts F) \<and>
     list_all (\<lambda>BB. getTerminator F BB \<noteq> None) [0..<length (blocks F)])"

text \<open>The measure of a function, with the weights of its own post-order traversal.\<close>

definition mu_func :: "func \<Rightarrow> nat" where
  "mu_func F = mu (weight (post_order F 0)) F"

declare run.simps [code]

section \<open>Basic facts\<close>

lemma same_operands_eq: "same_operands vs ws = (vs = ws)"
  by (induction vs ws rule: same_operands.induct) auto

lemma identical_eq: "identical A B = (opcode A = opcode B \<and> operands A = operands B)"
  by (simp add: identical_def same_operands_eq)

lemma isIdenticalTo_eq:
  "isIdenticalTo F a b =
     (opcode (inst_at F a) = opcode (inst_at F b) \<and> operands (inst_at F a) = operands (inst_at F b))"
  by (simp add: isIdenticalTo_def identical_eq)

lemma isIdenticalTo_refl: "isIdenticalTo F a a"
  by (simp add: isIdenticalTo_eq)

lemma isIdenticalTo_sym: "isIdenticalTo F a b \<Longrightarrow> isIdenticalTo F b a"
  by (simp add: isIdenticalTo_eq)

lemma isIdenticalTo_trans: "isIdenticalTo F a b \<Longrightarrow> isIdenticalTo F b c \<Longrightarrow> isIdenticalTo F a c"
  by (simp add: isIdenticalTo_eq)

lemma set_fold_insort_insert:
  "set (fold (\<lambda>I acc. if P I then insort_insert I acc else acc) Is acc0) =
     set acc0 \<union> {I \<in> set Is. P I}"
  by (induction Is arbitrary: acc0) (auto simp: set_insort_insert)

lemma sorted_fold_insort_insert:
  "sorted acc0 \<Longrightarrow> sorted (fold (\<lambda>I acc. if P I then insort_insert I acc else acc) Is acc0)"
  by (induction Is arbitrary: acc0) (auto simp: sorted_insort_insert)

lemma distinct_fold_insort_insert:
  "distinct acc0 \<Longrightarrow> distinct (fold (\<lambda>I acc. if P I then insort_insert I acc else acc) Is acc0)"
  by (induction Is arbitrary: acc0) (auto simp: distinct_insort_insert)

section \<open>Analysis: what the sets hold\<close>

lemma set_findUseSet:
  "set (UseSets (findUseSet TLI F BB S) B) =
     (if B = BB then set (UseSets S BB) \<union> {I \<in> set (body_of F BB). isRelocatable TLI (inst_at F I)}
      else set (UseSets S B))"
  by (simp add: findUseSet_def set_fold_insort_insert isRelocatable_def)

lemma set_def_uses:
  "set (def_uses F BB I acc0) =
     set acc0 \<union> {UI. getParent F UI = Some BB \<and> UI \<in> set (all_insts F) \<and> VInst I \<in> set (operands (inst_at F UI))}"
  by (auto simp: def_uses_def set_fold_insort_insert users_def)

lemma getParent_SomeD: "getParent F UI = Some BB \<Longrightarrow> UI \<in> set (body_of F BB)"
proof -
  assume "getParent F UI = Some BB"
  then obtain rest where
    eq: "filter (\<lambda>BB. UI \<in> set (body_of F BB)) [0..<length (blocks F)] = BB # rest"
    by (auto simp: getParent_def split: list.splits)
  have "BB \<in> set (filter (\<lambda>BB. UI \<in> set (body_of F BB)) [0..<length (blocks F)])"
    unfolding eq by simp
  then show ?thesis by simp
qed

lemma body_of_all_insts: "UI \<in> set (body_of F BB) \<Longrightarrow> UI \<in> set (all_insts F)"
  unfolding all_insts_def body_of_def
  by (cases "BB < length (blocks F)") (auto intro!: bexI [of _ "blocks F ! BB"])

lemma getParent_Some_all_insts: "getParent F UI = Some BB \<Longrightarrow> UI \<in> set (all_insts F)"
  by (blast dest: getParent_SomeD body_of_all_insts)

lemma set_fold_def_uses:
  "set (fold (def_uses F BB) Is acc0) =
     set acc0 \<union> {UI. getParent F UI = Some BB \<and> (\<exists>I \<in> set Is. VInst I \<in> set (operands (inst_at F UI)))}"
  by (induction Is arbitrary: acc0) (auto simp: set_def_uses dest: getParent_Some_all_insts)

lemma set_findDefSet:
  "set (DefSets (findDefSet F BB S) B) =
     (if B = BB then set (DefSets S BB) \<union> local_users F BB else set (DefSets S B))"
  by (simp add: findDefSet_def set_fold_def_uses local_users_def)

lemma set_in_loop:
  "set (in_loop F Defs Is acc0) =
     set acc0 \<union> {I \<in> set Is. \<not> (\<exists>DI \<in> set Defs. isIdenticalTo F I DI)}"
  by (simp add: in_loop_def set_fold_insort_insert list_ex_iff)

lemma set_findInSet:
  "set (InSets (findInSet F BB S) B) =
     (if B = BB then set (InSets S BB) \<union>
         {I \<in> set (UseSets S BB) \<union> set (OutSets S BB). \<not> (\<exists>DI \<in> set (DefSets S BB). isIdenticalTo F I DI)}
      else set (InSets S B))"
  by (auto simp: findInSet_def set_in_loop)

lemma tally_keys: "map fst (fst (tally F I count seen)) = map fst count"
  by (induction F I count seen rule: tally.induct) (auto split: prod.splits)

lemma count_put_keys: "fst ` set (count_put I n kvs) = insert I (fst ` set kvs)"
  by (induction I n kvs rule: count_put.induct) auto

lemma tally_succ_keys:
  "fst ` set (tally_succ F Is count seen) \<subseteq> fst ` set count \<union> set Is"
proof (induction F Is count seen rule: tally_succ.induct)
  case (1 F count seen)
  show ?case by simp
next
  case (2 F I Is count seen)
  obtain count' seen' matched where t: "tally F I count seen = (count', seen', matched)"
    by (cases "tally F I count seen") auto
  have k: "fst ` set count' = fst ` set count"
    using tally_keys [of F I count seen] t by (metis fst_conv set_map)
  from 2 [OF t [symmetric] refl] t k show ?case
    by (auto simp: count_put_keys split: if_splits)
qed

lemma tally_all_keys:
  "fst ` set (fold (\<lambda>Succ count. tally_succ F (InSets S Succ) count []) Succs count0) \<subseteq>
     fst ` set count0 \<union> (\<Union>Succ \<in> set Succs. set (InSets S Succ))"
proof (induction Succs arbitrary: count0)
  case Nil
  show ?case by simp
next
  case (Cons Succ Succs)
  show ?case
    using Cons [of "tally_succ F (InSets S Succ) count0 []"] tally_succ_keys [of F "InSets S Succ" count0 "[]"]
    by auto
qed

lemma out_new_subset: "out_new F S BB \<subseteq> (\<Union>Succ \<in> set (succs_of F BB). set (InSets S Succ))"
proof
  fix k assume "k \<in> out_new F S BB"
  then have "k \<in> fst ` set (tally_all F S (succs_of F BB))"
    unfolding out_new_def by force
  with tally_all_keys [of F S "succs_of F BB" "[]"]
  show "k \<in> (\<Union>Succ \<in> set (succs_of F BB). set (InSets S Succ))"
    unfolding tally_all_def by auto
qed

lemma set_fold_out:
  "set (fold (\<lambda>KV acc. if snd KV = n then insort_insert (fst KV) acc else acc) count acc0) =
     set acc0 \<union> {k. (k, n) \<in> set count}"
  by (induction count arbitrary: acc0) (auto simp: set_insort_insert)

lemma set_findOutSet:
  "set (OutSets (findOutSet F BB S) B) =
     (if B = BB then set (OutSets S BB) \<union> out_new F S BB else set (OutSets S B))"
  by (simp add: findOutSet_def Let_def set_fold_out out_new_def)

lemma findUseSet_others [simp]:
  "DefSets (findUseSet TLI F BB S) = DefSets S" "InSets (findUseSet TLI F BB S) = InSets S"
  "OutSets (findUseSet TLI F BB S) = OutSets S"
  by (simp_all add: findUseSet_def)

lemma findDefSet_others [simp]:
  "UseSets (findDefSet F BB S) = UseSets S" "InSets (findDefSet F BB S) = InSets S"
  "OutSets (findDefSet F BB S) = OutSets S"
  by (simp_all add: findDefSet_def)

lemma findOutSet_others [simp]:
  "UseSets (findOutSet F BB S) = UseSets S" "InSets (findOutSet F BB S) = InSets S"
  "DefSets (findOutSet F BB S) = DefSets S"
  by (simp_all add: findOutSet_def Let_def)

lemma findInSet_others [simp]:
  "UseSets (findInSet F BB S) = UseSets S" "DefSets (findInSet F BB S) = DefSets S"
  "OutSets (findInSet F BB S) = OutSets S"
  by (simp_all add: findInSet_def)

lemma analyse_block_Use:
  "set (UseSets (analyse_block TLI F BB S) B) =
     (if B = BB then set (UseSets S BB) \<union> use_of TLI F BB else set (UseSets S B))"
  by (simp add: analyse_block_def set_findUseSet use_of_def)

lemma analyse_block_Def:
  "set (DefSets (analyse_block TLI F BB S) B) =
     (if B = BB then set (DefSets S BB) \<union> local_users F BB else set (DefSets S B))"
  by (simp add: analyse_block_def set_findDefSet)

lemma out_new_cong:
  "InSets S' = InSets S \<Longrightarrow> out_new F S' BB = out_new F S BB"
  by (simp add: out_new_def tally_all_def)

lemma analyse_block_Out:
  "set (OutSets (analyse_block TLI F BB S) B) =
     (if B = BB then set (OutSets S BB) \<union> out_new F S BB else set (OutSets S B))"
proof -
  have "out_new F (findDefSet F BB (findUseSet TLI F BB S)) BB = out_new F S BB"
    by (rule out_new_cong) simp
  then show ?thesis by (simp add: analyse_block_def set_findOutSet)
qed

lemma kept_cong:
  "UseSets S' = UseSets S \<Longrightarrow> DefSets S' = DefSets S \<Longrightarrow> OutSets S' = OutSets S \<Longrightarrow>
     kept F S' BB = kept F S BB"
  by (simp add: kept_def)

lemma analyse_block_In:
  "set (InSets (analyse_block TLI F BB S) B) =
     (if B = BB then set (InSets S BB) \<union> kept F (analyse_block TLI F BB S) BB
      else set (InSets S B))"
proof -
  let ?S1 = "findOutSet F BB (findDefSet F BB (findUseSet TLI F BB S))"
  have "kept F (findInSet F BB ?S1) BB = kept F ?S1 BB"
    by (rule kept_cong) simp_all
  then show ?thesis
    unfolding analyse_block_def by (simp add: set_findInSet kept_def)
qed

lemma analyse_Use:
  "set (UseSets (fold (analyse_block TLI F) order S) B) =
     set (UseSets S B) \<union> (if B \<in> set order then use_of TLI F B else {})"
  by (induction order arbitrary: S) (auto simp: analyse_block_Use)

lemma analyse_Def:
  "set (DefSets (fold (analyse_block TLI F) order S) B) =
     set (DefSets S B) \<union> (if B \<in> set order then local_users F B else {})"
  by (induction order arbitrary: S) (auto simp: analyse_block_Def)

lemma in_inv_no_sets: "in_inv F no_sets"
  by (simp add: in_inv_def no_sets_def kept_def)

lemma in_inv_step:
  assumes "in_inv F S"
  shows "in_inv F (analyse_block TLI F BB S)"
  unfolding in_inv_def
proof (intro allI)
  fix B
  let ?S' = "analyse_block TLI F BB S"
  from assms have old: "set (InSets S B) = kept F S B" "set (DefSets S B) \<subseteq> local_users F B"
    "set (InSets S B) = {} \<or> set (DefSets S B) = local_users F B"
    unfolding in_inv_def by blast+
  show "set (InSets ?S' B) = kept F ?S' B \<and> set (DefSets ?S' B) \<subseteq> local_users F B \<and>
     (set (InSets ?S' B) = {} \<or> set (DefSets ?S' B) = local_users F B)"
  proof (cases "B = BB")
    case False
    have "kept F ?S' B = kept F S B"
      using False unfolding kept_def
      by (simp add: analyse_block_Use analyse_block_Def analyse_block_Out)
    with old False show ?thesis
      by (simp add: analyse_block_In analyse_block_Def)
  next
    case True
    have d: "set (DefSets ?S' B) = local_users F B"
      using old True by (auto simp: analyse_block_Def)
    have sub: "set (InSets S B) \<subseteq> kept F ?S' B"
    proof (cases "set (InSets S B) = {}")
      case True
      then show ?thesis by simp
    next
      case False
      with old have e: "set (DefSets S B) = local_users F B" by simp
      have "kept F S B \<subseteq> kept F ?S' B"
        unfolding kept_def using e d True
        by (auto simp: analyse_block_Use analyse_block_Out)
      with old show ?thesis by simp
    qed
    have "set (InSets ?S' B) = kept F ?S' B"
      using sub True by (auto simp: analyse_block_In)
    with d show ?thesis by simp
  qed
qed

lemma in_inv_fold: "in_inv F S \<Longrightarrow> in_inv F (fold (analyse_block TLI F) order S)"
  by (induction order arbitrary: S) (auto intro: in_inv_step)

lemma in_inv_analyse: "in_inv F (analyse TLI F order)"
  unfolding analyse_def by (intro in_inv_fold in_inv_no_sets)

lemma gate_inv_step:
  assumes "gate_inv TLI F S"
  shows "gate_inv TLI F (analyse_block TLI F BB S)"
proof -
  let ?S' = "analyse_block TLI F BB S"
  have u: "\<And>B I. I \<in> set (UseSets ?S' B) \<Longrightarrow> isRelocatable TLI (inst_at F I)"
    using assms unfolding gate_inv_def
    by (auto simp: analyse_block_Use use_of_def split: if_splits)
  have o: "\<And>B I. I \<in> set (OutSets ?S' B) \<Longrightarrow> isRelocatable TLI (inst_at F I)"
    using assms out_new_subset [of F S BB] unfolding gate_inv_def
    by (auto simp: analyse_block_Out split: if_splits)
  have i: "\<And>B I. I \<in> set (InSets ?S' B) \<Longrightarrow> isRelocatable TLI (inst_at F I)"
  proof -
    fix B I assume a: "I \<in> set (InSets ?S' B)"
    show "isRelocatable TLI (inst_at F I)"
    proof (cases "I \<in> set (InSets S B)")
      case True
      with assms show ?thesis unfolding gate_inv_def by blast
    next
      case False
      with a have "I \<in> kept F ?S' BB" by (auto simp: analyse_block_In split: if_splits)
      then have "I \<in> set (UseSets ?S' BB) \<union> set (OutSets ?S' BB)" unfolding kept_def by blast
      with u o show ?thesis by blast
    qed
  qed
  from u o i show ?thesis unfolding gate_inv_def by blast
qed

lemma gate_inv_analyse: "gate_inv TLI F (analyse TLI F order)"
proof -
  have "gate_inv TLI F S \<Longrightarrow> gate_inv TLI F (fold (analyse_block TLI F) order S)" for S
    by (induction order arbitrary: S) (auto intro: gate_inv_step)
  moreover have "gate_inv TLI F no_sets" by (simp add: gate_inv_def no_sets_def)
  ultimately show ?thesis unfolding analyse_def by blast
qed

lemma gated_flags:
  assumes "isRelocatable TLI (inst_at F I)"
  shows "opcode (inst_at F I) \<noteq> Alloca" "opcode (inst_at F I) \<noteq> PHI" "\<not> isTerminator (inst_at F I)"
    "opcode (inst_at F I) \<noteq> Call \<Longrightarrow> \<not> mayReadFromMemory (inst_at F I) \<and> \<not> mayHaveSideEffects (inst_at F I)"
    "opcode (inst_at F I) = Call \<Longrightarrow> isFunctionPure TLI (inst_at F I)"
  using assms
  by (auto simp: isRelocatable_def isToBeIgnored_def isTerminator_def split: if_splits opcode.splits)

lemma isRelocatable_call_iff:
  assumes "opcode I = Call"
  shows "isRelocatable TLI I =
    (\<exists>Called. calledFunction I = Some Called \<and> \<not> returnsPointer Called \<and>
       (\<forall>p \<in> set (argIsPointer Called). \<not> p) \<and> TLI (fname Called))"
  using assms
  by (auto simp: isRelocatable_def isToBeIgnored_def isFunctionPure_def list_ex_iff
      split: option.splits)

section \<open>Hoister: what the steps keep\<close>

lemma replace_operand_opcode [simp]: "opcode (replace_operand a b U) = opcode U"
  by (simp add: replace_operand_def)

lemma replace_operand_no_inst [simp]: "replace_operand a b no_inst = no_inst"
  by (simp add: replace_operand_def no_inst_def)

lemma inst_at_replaceAllUsesWith:
  "inst_at (replaceAllUsesWith F a b) i = replace_operand a b (inst_at F i)"
  by (simp add: inst_at_def replaceAllUsesWith_def)

lemma blocks_replaceAllUsesWith [simp]: "blocks (replaceAllUsesWith F a b) = blocks F"
  by (simp add: replaceAllUsesWith_def)

lemma body_of_replaceAllUsesWith [simp]: "body_of (replaceAllUsesWith F a b) = body_of F"
  by (rule ext) (simp add: body_of_def)

lemma succs_of_replaceAllUsesWith [simp]: "succs_of (replaceAllUsesWith F a b) = succs_of F"
  by (rule ext) (simp add: succs_of_def)

lemma isTerminator_replace_operand [simp]: "isTerminator (replace_operand a b U) = isTerminator U"
  by (simp add: isTerminator_def)

lemma getTerminator_replaceAllUsesWith [simp]:
  "getTerminator (replaceAllUsesWith F a b) BB = getTerminator F BB"
  by (simp add: getTerminator_def inst_at_replaceAllUsesWith)

lemma replace_dups_getTerminator:
  "replace_dups F Inst Is del = (F', del') \<Longrightarrow> getTerminator F' BB = getTerminator F BB"
  by (induction F Inst Is del rule: replace_dups.induct) (auto split: if_splits)

lemma checkBeforeMove_None_notin:
  "checkBeforeMove F BB Inst = None \<Longrightarrow> Inst \<notin> set (body_of F BB)"
  by (auto simp: checkBeforeMove_def find_None_iff isIdenticalTo_refl)

lemma insert_before_last:
  "Is \<noteq> [] \<Longrightarrow> insert_before End Inst Is \<noteq> [] \<and> last (insert_before End Inst Is) = last Is"
  by (induction Is) auto

lemma insts_moveBefore [simp]: "insts (moveBefore F Inst End) = insts F"
  by (simp add: moveBefore_def)

lemma inst_at_moveBefore [simp]: "inst_at (moveBefore F Inst End) = inst_at F"
  by (rule ext) (simp add: inst_at_def)

lemma body_of_moveBefore:
  "body_of (moveBefore F Inst End) BB = insert_before End Inst (removeAll Inst (body_of F BB))"
  by (simp add: body_of_def moveBefore_def)

lemma getTerminator_moveBefore:
  assumes "getTerminator F BB = Some End" "Inst \<notin> set (body_of F BB)"
  shows "getTerminator (moveBefore F Inst End) BB = Some End"
proof -
  from assms have ne: "body_of F BB \<noteq> []" and l: "last (body_of F BB) = End"
    and t: "isTerminator (inst_at F End)"
    by (auto simp: getTerminator_def split: if_splits)
  from assms(2) have "removeAll Inst (body_of F BB) = body_of F BB" by simp
  with insert_before_last [OF ne, of End Inst] l t show ?thesis
    by (simp add: getTerminator_def body_of_moveBefore)
qed

lemma hoist_loop_result:
  "(case hoist_loop F BB Origs Changed del of
      None \<Rightarrow> Origs \<noteq> [] \<and> getTerminator F BB = None
    | Some (F', Changed', del') \<Rightarrow> Changed' = (Changed \<or> Origs \<noteq> []) \<and>
        getTerminator F' BB = getTerminator F BB)"
proof (induction Origs arbitrary: F Changed del)
  case Nil
  show ?case by simp
next
  case (Cons Orig Origs)
  show ?case
  proof (cases "checkBeforeMove F BB Orig")
    case (Some Existing)
    obtain F1 del1 where r: "replace_dups F Existing (reach_insts F BB) del = (F1, del1)"
      by (cases "replace_dups F Existing (reach_insts F BB) del") auto
    have g: "getTerminator F1 BB = getTerminator F BB"
      using r by (rule replace_dups_getTerminator)
    have "hoist_loop F BB (Orig # Origs) Changed del = hoist_loop F1 BB Origs True del1"
      using Some r by simp
    with Cons [of F1 True del1] g show ?thesis
      by (auto split: option.splits)
  next
    case None
    show ?thesis
    proof (cases "getTerminator F BB")
      case N2: None
      with None show ?thesis by simp
    next
      case (Some End)
      let ?M = "moveBefore F Orig End"
      obtain F1 del1 where r: "replace_dups ?M Orig (reach_insts ?M BB) del = (F1, del1)"
        by (cases "replace_dups ?M Orig (reach_insts ?M BB) del") auto
      have "getTerminator ?M BB = Some End"
        using Some None by (intro getTerminator_moveBefore checkBeforeMove_None_notin)
      with r have g: "getTerminator F1 BB = Some End"
        by (simp add: replace_dups_getTerminator)
      have "hoist_loop F BB (Orig # Origs) Changed del = hoist_loop F1 BB Origs True del1"
        using Some None r by simp
      with Cons [of F1 True del1] g Some show ?thesis
        by (auto split: option.splits)
    qed
  qed
qed

section \<open>Driver: a round that reports no change\<close>

lemma erase_all_Nil [simp]: "erase_all F [] = F"
  by (simp add: erase_all_def)

lemma hoistInstructions_unchanged:
  assumes "hoistInstructions F BB Outs = Some (False, F')"
  shows "F' = F"
proof -
  from hoist_loop_result [where F = F and BB = BB and Origs = "Outs BB" and Changed = False
      and del = "[]"] assms
  have "Outs BB = []"
    by (auto simp: hoistInstructions_def split: option.splits)
  with assms show ?thesis by (simp add: hoistInstructions_def)
qed

lemma hoist_blocks_unchanged:
  "hoist_blocks F Outs BBs = Some (False, F') \<Longrightarrow> F' = F"
proof (induction BBs arbitrary: F)
  case Nil
  then show ?case by simp
next
  case (Cons BB BBs)
  from Cons.prems obtain F1 where h: "hoistInstructions F BB Outs = Some (False, F1)"
    and r: "hoist_blocks F1 Outs BBs = Some (False, F')"
    by (auto split: option.splits if_splits)
  from h have "F1 = F" by (rule hoistInstructions_unchanged)
  with Cons.IH [OF r] show ?case by simp
qed

lemma round_unchanged: "round TLI F = Some (False, F') \<Longrightarrow> F' = F"
  unfolding round_def by (rule hoist_blocks_unchanged)

lemma run_Finished_round:
  assumes "run TLI F = Some out"
  shows "\<forall>F'. out = Finished F' \<longrightarrow> round TLI F' = Some (False, F')"
  using assms
proof (induction rule: run.raw_induct [rotated 1, consumes 1])
  case (1 run TLI F out)
  show ?case
  proof (cases "round TLI F")
    case None
    with 1(2) show ?thesis by auto
  next
    case (Some r)
    obtain ch F1 where r: "r = (ch, F1)" by (cases r)
    show ?thesis
    proof (cases ch)
      case True
      with 1(2) Some r have "run TLI F1 = Some out" by simp
      then show ?thesis by (rule 1(1))
    next
      case False
      with Some r have "F1 = F" by (auto dest: round_unchanged)
      with 1(2) Some r False show ?thesis by auto
    qed
  qed
qed

section \<open>Hoister: marked instructions\<close>

lemma operands_replace_operand:
  "operands (replace_operand a b U) = map (\<lambda>v. if v = VInst a then VInst b else v) (operands U)"
  by (simp add: replace_operand_def)

lemma isIdenticalTo_replaceAllUsesWith:
  "isIdenticalTo F a b \<Longrightarrow> isIdenticalTo (replaceAllUsesWith F x y) a b"
  by (simp add: isIdenticalTo_eq inst_at_replaceAllUsesWith operands_replace_operand)

lemma arena_unused_replaced:
  "I \<noteq> Inst \<Longrightarrow> arena_unused (replaceAllUsesWith F I Inst) I"
  by (auto simp: arena_unused_def inst_at_replaceAllUsesWith operands_replace_operand)

lemma arena_unused_kept:
  "arena_unused F M \<Longrightarrow> M \<noteq> Inst \<Longrightarrow> arena_unused (replaceAllUsesWith F I Inst) M"
  by (auto simp: arena_unused_def inst_at_replaceAllUsesWith operands_replace_operand)

lemma find_mono_other:
  assumes "find P xs = Some C" "C \<noteq> M" "P M" "\<And>x. P x \<Longrightarrow> Q x"
  shows "\<exists>C'. find Q xs = Some C' \<and> C' \<noteq> M"
  using assms(1,2)
proof (induction xs)
  case Nil
  then show ?case by simp
next
  case (Cons x xs)
  show ?case
  proof (cases "P x")
    case True
    with Cons.prems have "x = C" by simp
    with True assms(4) Cons.prems show ?thesis by auto
  next
    case False
    with assms(3) have "x \<noteq> M" by auto
    with False Cons show ?thesis by auto
  qed
qed

lemma find_insert_before:
  "find P xs = Some C \<Longrightarrow> \<exists>C'. find P (insert_before e x xs) = Some C' \<and> (C' = C \<or> C' = x)"
  by (induction xs) (auto split: if_splits)

lemma find_in_prefix:
  assumes "P C" "\<forall>x \<in> set pre. \<not> P x"
  shows "find P (pre @ C # post) = Some C"
  using assms by (induction pre) auto

lemma find_Some_split:
  "find P xs = Some C \<Longrightarrow> \<exists>pre post. xs = pre @ C # post \<and> P C \<and> (\<forall>x \<in> set pre. \<not> P x)"
proof (induction xs)
  case Nil
  then show ?case by simp
next
  case (Cons x xs)
  show ?case
  proof (cases "P x")
    case True
    with Cons.prems have "x = C" by simp
    with True show ?thesis by (intro exI [of _ "[]"] exI [of _ xs]) auto
  next
    case False
    with Cons obtain pre post where "xs = pre @ C # post" "P C" "\<forall>x \<in> set pre. \<not> P x"
      by auto
    with False show ?thesis by (intro exI [of _ "x # pre"] exI [of _ post]) auto
  qed
qed

lemma find_hits_prefix:
  assumes "C \<in> set pre" "P C"
  shows "\<exists>C'. find P (pre @ post) = Some C' \<and> C' \<in> set pre"
  using assms by (induction pre) auto

lemma checkBeforeMove_replaceAllUsesWith:
  assumes "checkBeforeMove F BB M = Some C" "C \<noteq> M"
  shows "\<exists>C'. checkBeforeMove (replaceAllUsesWith F x y) BB M = Some C' \<and> C' \<noteq> M"
  unfolding checkBeforeMove_def body_of_replaceAllUsesWith
  by (rule find_mono_other [OF assms(1) [unfolded checkBeforeMove_def] assms(2)])
     (auto simp: isIdenticalTo_refl intro: isIdenticalTo_replaceAllUsesWith)

lemma marked_ok_replaceAllUsesWith:
  assumes "marked_ok F BB del" "Inst \<notin> set del"
  shows "marked_ok (replaceAllUsesWith F I Inst) BB del"
  unfolding marked_ok_def
proof
  fix M assume m: "M \<in> set del"
  with assms have "arena_unused F M" "M \<noteq> Inst"
    and "\<exists>C. checkBeforeMove F BB M = Some C \<and> C \<noteq> M"
    unfolding marked_ok_def by auto
  then show "arena_unused (replaceAllUsesWith F I Inst) M \<and>
      (\<exists>C. checkBeforeMove (replaceAllUsesWith F I Inst) BB M = Some C \<and> C \<noteq> M)"
    by (auto intro: arena_unused_kept dest: checkBeforeMove_replaceAllUsesWith)
qed

text \<open>The scan for one canonical instance \<open>Inst\<close>, which stands in the block after \<open>pre\<close>.\<close>

lemma replace_dups_marked:
  assumes "replace_dups F Inst Is del = (F', del')"
    and "body_of F BB = pre @ Inst # post"
    and "set Is \<inter> set pre = {}"
    and "Inst \<notin> set del"
    and "marked_ok F BB del"
  shows "marked_ok F' BB del' \<and> Inst \<notin> set del' \<and> set del \<subseteq> set del'"
  using assms
proof (induction F Inst Is del rule: replace_dups.induct)
  case (1 F Inst del)
  then show ?case by simp
next
  case (2 F Inst I Is del)
  show ?case
  proof (cases "isIdenticalTo F I Inst \<and> I \<noteq> Inst")
    case False
    with 2 show ?thesis by auto
  next
    case True
    let ?F1 = "replaceAllUsesWith F I Inst"
    let ?del1 = "insort_insert I del"
    have r: "replace_dups ?F1 Inst Is ?del1 = (F', del')"
      using "2.prems"(1) True by simp
    have b: "body_of ?F1 BB = pre @ Inst # post"
      using "2.prems"(2) by simp
    have notin: "Inst \<notin> set ?del1"
      using "2.prems"(4) True by (simp add: set_insort_insert)
    have old: "marked_ok ?F1 BB del"
      using "2.prems"(4,5) by (rule marked_ok_replaceAllUsesWith [rotated])
    from True have "isIdenticalTo F Inst I" by (simp add: isIdenticalTo_eq)
    then have id1: "isIdenticalTo ?F1 Inst I" by (rule isIdenticalTo_replaceAllUsesWith)
    have "Inst \<in> set (pre @ [Inst])" by simp
    from find_hits_prefix [OF this, of "\<lambda>x. isIdenticalTo ?F1 x I" post] id1
    obtain C' where c: "find (\<lambda>x. isIdenticalTo ?F1 x I) ((pre @ [Inst]) @ post) = Some C'"
      "C' \<in> set (pre @ [Inst])"
      by blast
    have "I \<notin> set (pre @ [Inst])"
      using "2.prems"(3) True by auto
    with c have "C' \<noteq> I" by blast
    moreover from c(1) have "checkBeforeMove ?F1 BB I = Some C'"
      unfolding checkBeforeMove_def b by simp
    ultimately have new: "\<exists>C. checkBeforeMove ?F1 BB I = Some C \<and> C \<noteq> I"
      by blast
    have "arena_unused ?F1 I" using True by (intro arena_unused_replaced) simp
    with old new have m: "marked_ok ?F1 BB ?del1"
      unfolding marked_ok_def by (auto simp: set_insort_insert)
    have "set Is \<inter> set pre = {}" using "2.prems"(3) by auto
    from "2.IH"(1) [OF True r b this notin m] show ?thesis
      by (auto simp: set_insort_insert)
  qed
qed

lemma replace_dups_skip:
  "\<forall>x \<in> set pre. \<not> isIdenticalTo F x Inst \<Longrightarrow>
     replace_dups F Inst (pre @ Is) del = replace_dups F Inst Is del"
  by (induction pre) auto

section \<open>Lists of instructions\<close>

lemma concat_removeAll: "concat (map (removeAll x) xss) = removeAll x (concat xss)"
  by (induction xss) auto

lemma insert_before_notin: "e \<notin> set xs \<Longrightarrow> insert_before e x xs = xs"
  by (induction xs) auto

lemma insert_before_append:
  "insert_before e x (xs @ ys) =
     (if e \<in> set xs then insert_before e x xs @ ys else xs @ insert_before e x ys)"
  by (induction xs) auto

lemma concat_insert_before:
  "distinct (concat xss) \<Longrightarrow>
     concat (map (insert_before e x) xss) = insert_before e x (concat xss)"
proof (induction xss)
  case Nil
  show ?case by simp
next
  case (Cons xs xss)
  show ?case
  proof (cases "e \<in> set xs")
    case True
    with Cons.prems have "\<forall>ys \<in> set xss. e \<notin> set ys" by auto
    then have "map (insert_before e x) xss = xss"
      by (intro map_idI) (simp add: insert_before_notin)
    with True show ?thesis by (simp add: insert_before_append)
  next
    case False
    with Cons show ?thesis by (simp add: insert_before_append insert_before_notin)
  qed
qed

lemma insert_before_split:
  "e \<notin> set pre \<Longrightarrow> insert_before e x (pre @ e # post) = pre @ x # e # post"
  by (induction pre) auto

lemma set_insert_before:
  "set (insert_before e x xs) = (if e \<in> set xs then insert x (set xs) else set xs)"
  by (induction xs) auto

lemma distinct_insert_before:
  "distinct xs \<Longrightarrow> x \<notin> set xs \<Longrightarrow> distinct (insert_before e x xs)"
  by (induction xs) (auto simp: set_insert_before)

lemma length_insert_before:
  "length (insert_before e x xs) = (if e \<in> set xs then Suc (length xs) else length xs)"
  by (induction xs) auto

lemma all_insts_replaceAllUsesWith [simp]:
  "all_insts (replaceAllUsesWith F a b) = all_insts F"
  by (simp add: all_insts_def)

lemma all_insts_moveBefore:
  assumes "distinct (all_insts F)"
  shows "all_insts (moveBefore F Inst End) = insert_before End Inst (removeAll Inst (all_insts F))"
proof -
  have "all_insts (moveBefore F Inst End) =
      concat (map (insert_before End Inst) (map (removeAll Inst) (map body (blocks F))))"
    by (simp add: all_insts_def moveBefore_def comp_def)
  also have "\<dots> = insert_before End Inst (concat (map (removeAll Inst) (map body (blocks F))))"
    using assms unfolding all_insts_def
    by (intro concat_insert_before) (simp only: concat_removeAll distinct_removeAll)
  finally show ?thesis by (simp only: concat_removeAll all_insts_def)
qed

lemma distinct_moveBefore:
  "distinct (all_insts F) \<Longrightarrow> distinct (all_insts (moveBefore F Inst End))"
  by (simp add: all_insts_moveBefore distinct_insert_before distinct_removeAll)

lemma set_all_insts_moveBefore:
  assumes "distinct (all_insts F)" "Inst \<in> set (all_insts F)" "End \<in> set (all_insts F)"
    "End \<noteq> Inst"
  shows "set (all_insts (moveBefore F Inst End)) = set (all_insts F)"
  using assms by (auto simp: all_insts_moveBefore set_insert_before)

lemma all_insts_eraseFromParent:
  "all_insts (eraseFromParent F I) = removeAll I (all_insts F)"
  by (simp add: all_insts_def eraseFromParent_def comp_def concat_removeAll [symmetric])

lemma insts_eraseFromParent [simp]: "insts (eraseFromParent F I) = insts F"
  by (simp add: eraseFromParent_def)

lemma all_insts_erase_all:
  "all_insts (erase_all F del) = filter (\<lambda>I. I \<notin> set del) (all_insts F)"
  unfolding erase_all_def
proof (induction del arbitrary: F)
  case Nil
  show ?case by simp
next
  case (Cons d del)
  show ?case
    by (simp add: Cons all_insts_eraseFromParent removeAll_filter_not_eq filter_filter conj_commute)
       (metis)
qed

lemma insts_erase_all [simp]: "insts (erase_all F del) = insts F"
  unfolding erase_all_def by (induction del arbitrary: F) auto

lemma inst_at_erase_all [simp]: "inst_at (erase_all F del) = inst_at F"
  by (rule ext) (simp add: inst_at_def)

lemma distinct_concat_nth:
  "distinct (concat xss) \<Longrightarrow> i < length xss \<Longrightarrow> j < length xss \<Longrightarrow> i \<noteq> j \<Longrightarrow>
     set (xss ! i) \<inter> set (xss ! j) = {}"
proof (induction xss arbitrary: i j)
  case Nil
  then show ?case by simp
next
  case (Cons xs xss)
  show ?case
  proof (cases i)
    case 0
    with Cons.prems obtain j' where j: "j = Suc j'" "j' < length xss" by (cases j) auto
    then have m: "xss ! j' \<in> set xss" by simp
    from Cons.prems(1) have d: "set xs \<inter> \<Union> (set ` set xss) = {}" by simp
    from d m have "set xs \<inter> set (xss ! j') = {}" by blast
    with 0 j show ?thesis by simp
  next
    case (Suc i')
    show ?thesis
    proof (cases j)
      case 0
      from Suc Cons.prems have m: "xss ! i' \<in> set xss" by simp
      from Cons.prems(1) have d: "set xs \<inter> \<Union> (set ` set xss) = {}" by simp
      from d m have "set (xss ! i') \<inter> set xs = {}" by blast
      with 0 Suc show ?thesis by simp
    next
      case S2: (Suc j')
      with Suc Cons.prems Cons.IH [of i' j'] show ?thesis by auto
    qed
  qed
qed

lemma body_of_disjoint:
  assumes "distinct (all_insts F)" "b \<noteq> BB"
  shows "set (body_of F b) \<inter> set (body_of F BB) = {}"
proof (cases "b < length (blocks F) \<and> BB < length (blocks F)")
  case True
  with distinct_concat_nth [of "map body (blocks F)" b BB] assms show ?thesis
    by (simp add: all_insts_def body_of_def)
next
  case False
  then show ?thesis by (auto simp: body_of_def)
qed

lemma distinct_body_of: "distinct (all_insts F) \<Longrightarrow> distinct (body_of F BB)"
  unfolding all_insts_def body_of_def
  by (auto simp: distinct_concat_iff)

section \<open>Breadth-first order\<close>

lemma bf_loop_subset: "set (bf_loop F q vis) \<subseteq> set q \<union> (UNIV - set vis)"
proof (induction F q vis rule: bf_loop.induct)
  case (1 F vis)
  show ?case by simp
next
  case (2 F n q vis)
  obtain new where e: "enqueue_new (succs_of F n) q vis = (q @ new, rev new @ vis)"
    and n: "set new \<subseteq> set (succs_of F n) - set vis"
    using enqueue_new_shape [of "succs_of F n" q vis] by blast
  from 2 [OF e [symmetric]] have "set (bf_loop F (q @ new) (rev new @ vis)) \<subseteq>
      set (q @ new) \<union> (UNIV - set (rev new @ vis))" .
  with e n show ?case by auto
qed

lemma breadth_first_head:
  "\<exists>rest. breadth_first F BB = BB # rest \<and> BB \<notin> set rest"
proof -
  obtain new where e: "enqueue_new (succs_of F BB) [] [BB] = ([] @ new, rev new @ [BB])"
    and n: "set new \<subseteq> set (succs_of F BB) - set [BB]"
    using enqueue_new_shape [of "succs_of F BB" "[]" "[BB]"] by blast
  have "set (bf_loop F new (rev new @ [BB])) \<subseteq> set new \<union> (UNIV - set (rev new @ [BB]))"
    by (rule bf_loop_subset)
  with n have "BB \<notin> set (bf_loop F new (rev new @ [BB]))" by auto
  with e show ?thesis by (simp add: breadth_first_def)
qed

lemma reach_insts_split:
  assumes "distinct (all_insts F)"
  shows "\<exists>rest. reach_insts F BB = body_of F BB @ rest \<and> set rest \<inter> set (body_of F BB) = {}"
proof -
  from breadth_first_head [of F BB] obtain bs where
    b: "breadth_first F BB = BB # bs" "BB \<notin> set bs" by blast
  have "set (concat (map (body_of F) bs)) \<inter> set (body_of F BB) = {}"
  proof -
    have "set (body_of F b) \<inter> set (body_of F BB) = {}" if "b \<in> set bs" for b
      using that b(2) by (intro body_of_disjoint [OF assms]) auto
    then show ?thesis by fastforce
  qed
  with b(1) show ?thesis by (simp add: reach_insts_def)
qed

section \<open>Hoister: no use of a deleted instruction\<close>

lemma uses_closed_iff:
  "uses_closed F = (\<forall>U \<in> set (all_insts F). \<forall>I. VInst I \<in> set (operands (inst_at F U)) \<longrightarrow>
     I \<in> set (all_insts F))"
  unfolding uses_closed_def
proof (intro ball_cong refl iffI allI impI ballI)
  fix U I
  assume "\<forall>v \<in> set (operands (inst_at F U)). case v of VInst I \<Rightarrow> I \<in> set (all_insts F) | _ \<Rightarrow> True"
    and "VInst I \<in> set (operands (inst_at F U))"
  then show "I \<in> set (all_insts F)" by fastforce
next
  fix U v
  assume "\<forall>I. VInst I \<in> set (operands (inst_at F U)) \<longrightarrow> I \<in> set (all_insts F)"
    and "v \<in> set (operands (inst_at F U))"
  then show "case v of VInst I \<Rightarrow> I \<in> set (all_insts F) | _ \<Rightarrow> True"
    by (cases v) auto
qed

lemma uses_closed_replaceAllUsesWith:
  assumes "uses_closed F" "Inst \<in> set (all_insts F)"
  shows "uses_closed (replaceAllUsesWith F I Inst)"
  using assms unfolding uses_closed_iff
  by (auto simp: inst_at_replaceAllUsesWith operands_replace_operand split: if_splits)

lemma replace_dups_blocks:
  "replace_dups F Inst Is del = (F', del') \<Longrightarrow> blocks F' = blocks F"
  by (induction F Inst Is del rule: replace_dups.induct) (auto split: if_splits)

lemma all_insts_cong: "blocks F' = blocks F \<Longrightarrow> all_insts F' = all_insts F"
  by (simp add: all_insts_def)

lemma body_of_cong: "blocks F' = blocks F \<Longrightarrow> body_of F' = body_of F"
  by (rule ext) (simp add: body_of_def)

lemma replace_dups_closed:
  "replace_dups F Inst Is del = (F', del') \<Longrightarrow> uses_closed F \<Longrightarrow> Inst \<in> set (all_insts F) \<Longrightarrow>
     uses_closed F'"
proof (induction F Inst Is del rule: replace_dups.induct)
  case (1 F Inst del)
  then show ?case by simp
next
  case (2 F Inst I Is del)
  show ?case
  proof (cases "isIdenticalTo F I Inst \<and> I \<noteq> Inst")
    case True
    with "2.prems" have "replace_dups (replaceAllUsesWith F I Inst) Inst Is (insort_insert I del) = (F', del')"
      by simp
    from "2.IH"(1) [OF True this] "2.prems" show ?thesis
      by (simp add: uses_closed_replaceAllUsesWith)
  next
    case False
    with 2 show ?thesis by auto
  qed
qed

text \<open>The whole scan of one candidate, from a canonical instance that is the first of
  its kind in the block.\<close>

lemma scan_marked:
  assumes r: "replace_dups F Inst (reach_insts F BB) del = (F', del')"
    and d: "distinct (all_insts F)"
    and b: "body_of F BB = pre @ Inst # post"
    and p: "\<forall>x \<in> set pre. \<not> isIdenticalTo F x Inst"
    and n: "Inst \<notin> set del"
    and m: "marked_ok F BB del"
  shows "marked_ok F' BB del' \<and> set del \<subseteq> set del'"
proof -
  from reach_insts_split [OF d, of BB] obtain rest where
    s: "reach_insts F BB = body_of F BB @ rest" "set rest \<inter> set (body_of F BB) = {}" by blast
  have "replace_dups F Inst (pre @ (Inst # post @ rest)) del = replace_dups F Inst (Inst # post @ rest) del"
    using p by (rule replace_dups_skip)
  with r s b have r': "replace_dups F Inst (Inst # post @ rest) del = (F', del')" by simp
  from distinct_body_of [OF d, of BB] b have "set (Inst # post) \<inter> set pre = {}" by auto
  moreover from s(2) b have "set rest \<inter> set pre = {}" by auto
  ultimately have "set (Inst # post @ rest) \<inter> set pre = {}" by auto
  from replace_dups_marked [OF r' b this n m] show ?thesis by blast
qed

lemma marked_not_first:
  assumes "marked_ok F BB del" "body_of F BB = pre @ C # post"
    "\<forall>x \<in> set pre. \<not> isIdenticalTo F x C"
  shows "C \<notin> set del"
proof
  assume "C \<in> set del"
  with assms(1) obtain C' where "checkBeforeMove F BB C = Some C'" "C' \<noteq> C"
    unfolding marked_ok_def by blast
  moreover have "checkBeforeMove F BB C = Some C"
    unfolding checkBeforeMove_def assms(2)
    using assms(3) by (intro find_in_prefix) (auto simp: isIdenticalTo_refl)
  ultimately show False by simp
qed

lemma isIdenticalTo_moveBefore [simp]:
  "isIdenticalTo (moveBefore F Inst End) = isIdenticalTo F"
  by (intro ext) (simp add: isIdenticalTo_def)

lemma arena_unused_moveBefore [simp]:
  "arena_unused (moveBefore F Inst End) = arena_unused F"
  by (intro ext) (simp add: arena_unused_def)

lemma marked_ok_moveBefore:
  assumes "marked_ok F BB del" "Orig \<notin> set del" "Orig \<notin> set (body_of F BB)"
  shows "marked_ok (moveBefore F Orig End) BB del"
  unfolding marked_ok_def
proof
  fix M assume M: "M \<in> set del"
  with assms(1) obtain C where c: "checkBeforeMove F BB M = Some C" "C \<noteq> M"
    and u: "arena_unused F M"
    unfolding marked_ok_def by blast
  from assms(3) have "removeAll Orig (body_of F BB) = body_of F BB" by simp
  with find_insert_before [OF c(1) [unfolded checkBeforeMove_def], of End Orig]
  obtain C' where "checkBeforeMove (moveBefore F Orig End) BB M = Some C'" "C' = C \<or> C' = Orig"
    unfolding checkBeforeMove_def by (auto simp: body_of_moveBefore)
  moreover from M assms(2) have "Orig \<noteq> M" by auto
  ultimately show "arena_unused (moveBefore F Orig End) M \<and>
      (\<exists>C. checkBeforeMove (moveBefore F Orig End) BB M = Some C \<and> C \<noteq> M)"
    using c(2) u by auto
qed

lemma uses_closed_cong:
  "set (all_insts F') = set (all_insts F) \<Longrightarrow> inst_at F' = inst_at F \<Longrightarrow>
     uses_closed F' = uses_closed F"
  by (simp add: uses_closed_iff)

lemma getTerminator_SomeD:
  "getTerminator F BB = Some End \<Longrightarrow> End \<in> set (body_of F BB) \<and> isTerminator (inst_at F End)"
  by (auto simp: getTerminator_def split: if_splits)

lemma hoist_loop_inv:
  assumes "hoist_loop F BB Origs Changed del = Some (F1, Changed1, del1)"
    and "distinct (all_insts F)" and "marked_ok F BB del" and "uses_closed F"
    and "set Origs \<subseteq> set (all_insts F)"
  shows "distinct (all_insts F1) \<and> marked_ok F1 BB del1 \<and> uses_closed F1 \<and>
    set (all_insts F1) = set (all_insts F) \<and> set del \<subseteq> set del1"
  using assms
proof (induction Origs arbitrary: F Changed del)
  case Nil
  then show ?case by simp
next
  case (Cons Orig Origs)
  note d = Cons.prems(2) and m = Cons.prems(3) and u = Cons.prems(4) and o = Cons.prems(5)
  show ?case
  proof (cases "checkBeforeMove F BB Orig")
    case (Some C)
    from find_Some_split [OF Some [unfolded checkBeforeMove_def]] obtain pre post where
      b: "body_of F BB = pre @ C # post" and c: "isIdenticalTo F C Orig"
      and p: "\<forall>x \<in> set pre. \<not> isIdenticalTo F x Orig" by blast
    from p c have p': "\<forall>x \<in> set pre. \<not> isIdenticalTo F x C"
      by (blast intro: isIdenticalTo_trans)
    from marked_not_first [OF m b p'] have n: "C \<notin> set del" .
    obtain F2 del2 where r: "replace_dups F C (reach_insts F BB) del = (F2, del2)"
      by (cases "replace_dups F C (reach_insts F BB) del") auto
    from scan_marked [OF r d b p' n m] have m2: "marked_ok F2 BB del2" "set del \<subseteq> set del2"
      by blast+
    have bl: "blocks F2 = blocks F" using r by (rule replace_dups_blocks)
    have ai: "all_insts F2 = all_insts F" using bl by (rule all_insts_cong)
    have "C \<in> set (all_insts F)" using b by (intro body_of_all_insts [of _ _ BB]) simp
    with r u have u2: "uses_closed F2" by (rule replace_dups_closed)
    have h: "hoist_loop F2 BB Origs True del2 = Some (F1, Changed1, del1)"
      using Cons.prems(1) Some r by simp
    from Cons.IH [OF h] d m2 u2 o ai show ?thesis by auto
  next
    case None
    then obtain End where t: "getTerminator F BB = Some End"
      using Cons.prems(1) by (cases "getTerminator F BB") auto
    let ?M = "moveBefore F Orig End"
    from checkBeforeMove_None_notin [OF None] have nb: "Orig \<notin> set (body_of F BB)" .
    have "Orig \<notin> set del"
    proof
      assume "Orig \<in> set del"
      with m obtain C where "checkBeforeMove F BB Orig = Some C" unfolding marked_ok_def by blast
      with None show False by simp
    qed
    note nd = this
    from getTerminator_SomeD [OF t] have e: "End \<in> set (body_of F BB)" by simp
    with nb have ne: "End \<noteq> Orig" by auto
    from e obtain pre post where sp: "body_of F BB = pre @ End # post" "End \<notin> set pre"
      by (auto dest: split_list_first)
    from nb have "removeAll Orig (body_of F BB) = body_of F BB" by simp
    with sp have b: "body_of ?M BB = pre @ Orig # End # post"
      by (simp add: body_of_moveBefore insert_before_split)
    from None sp have p: "\<forall>x \<in> set pre. \<not> isIdenticalTo ?M x Orig"
      by (auto simp: checkBeforeMove_def find_None_iff)
    have dM: "distinct (all_insts ?M)" using d by (rule distinct_moveBefore)
    have mM: "marked_ok ?M BB del" using m nd nb by (rule marked_ok_moveBefore)
    have "Orig \<in> set (all_insts F)" using o by simp
    moreover have "End \<in> set (all_insts F)" using e by (rule body_of_all_insts)
    ultimately have sM: "set (all_insts ?M) = set (all_insts F)"
      using d ne by (intro set_all_insts_moveBefore) auto
    have "uses_closed ?M = uses_closed F" using sM by (intro uses_closed_cong) simp_all
    with u have uM: "uses_closed ?M" by simp
    obtain F2 del2 where r: "replace_dups ?M Orig (reach_insts ?M BB) del = (F2, del2)"
      by (cases "replace_dups ?M Orig (reach_insts ?M BB) del") auto
    from scan_marked [OF r dM b p nd mM] have m2: "marked_ok F2 BB del2" "set del \<subseteq> set del2"
      by blast+
    have bl: "blocks F2 = blocks ?M" using r by (rule replace_dups_blocks)
    have ai: "all_insts F2 = all_insts ?M" using bl by (rule all_insts_cong)
    have "Orig \<in> set (all_insts ?M)" using sM o by simp
    with r uM have u2: "uses_closed F2" by (rule replace_dups_closed)
    have h: "hoist_loop F2 BB Origs True del2 = Some (F1, Changed1, del1)"
      using Cons.prems(1) None t r by simp
    from Cons.IH [OF h] dM m2 u2 o ai sM show ?thesis by auto
  qed
qed

lemma uses_closed_erase_all:
  assumes "uses_closed F" "\<forall>D \<in> set del. arena_unused F D"
  shows "uses_closed (erase_all F del)"
  using assms unfolding uses_closed_iff
  by (auto simp: all_insts_erase_all arena_unused_def)

section \<open>Traversals: what they visit\<close>

lemma enqueue_new_visited: "set (snd (enqueue_new cs q vis)) = set vis \<union> set cs"
  by (induction cs q vis rule: enqueue_new.induct) auto

lemma bf_loop_closed:
  assumes "set q \<subseteq> set vis" "\<forall>n \<in> set vis - set q. set (succs_of F n) \<subseteq> set vis"
  shows "set q \<subseteq> set (bf_loop F q vis) \<and>
    (\<forall>n \<in> set (bf_loop F q vis) \<union> (set vis - set q).
       set (succs_of F n) \<subseteq> set (bf_loop F q vis) \<union> (set vis - set q))"
  using assms
proof (induction F q vis rule: bf_loop.induct)
  case (1 F vis)
  then show ?case by simp
next
  case (2 F n q vis)
  obtain new where e: "enqueue_new (succs_of F n) q vis = (q @ new, rev new @ vis)"
    and n: "set new \<subseteq> set (succs_of F n) - set vis"
    using enqueue_new_shape [of "succs_of F n" q vis] by blast
  from enqueue_new_visited [of "succs_of F n" q vis] e
  have v: "set (rev new @ vis) = set vis \<union> set (succs_of F n)" by simp
  let ?R' = "set (bf_loop F (q @ new) (rev new @ vis))"
  have a1: "set (q @ new) \<subseteq> set (rev new @ vis)" using "2.prems"(1) by auto
  have a2: "\<forall>k \<in> set (rev new @ vis) - set (q @ new). set (succs_of F k) \<subseteq> set (rev new @ vis)"
  proof
    fix k assume k: "k \<in> set (rev new @ vis) - set (q @ new)"
    show "set (succs_of F k) \<subseteq> set (rev new @ vis)"
    proof (cases "k = n")
      case True
      with v show ?thesis by auto
    next
      case False
      with k have "k \<in> set vis - set (n # q)" by auto
      with "2.prems"(2) have "set (succs_of F k) \<subseteq> set vis" by blast
      then show ?thesis by auto
    qed
  qed
  from "2.IH" [OF e [symmetric] a1 a2]
  have ih1: "set (q @ new) \<subseteq> ?R'"
    and ih2: "\<forall>k \<in> ?R' \<union> (set (rev new @ vis) - set (q @ new)).
       set (succs_of F k) \<subseteq> ?R' \<union> (set (rev new @ vis) - set (q @ new))"
    by blast+
  have r: "bf_loop F (n # q) vis = n # bf_loop F (q @ new) (rev new @ vis)"
    using e by simp
  have eq: "insert n ?R' \<union> (set vis - set (n # q)) = ?R' \<union> (set (rev new @ vis) - set (q @ new))"
    using ih1 n "2.prems"(1) by auto
  have "set (n # q) \<subseteq> insert n ?R'" using ih1 by auto
  moreover have "\<forall>k \<in> insert n ?R' \<union> (set vis - set (n # q)).
      set (succs_of F k) \<subseteq> insert n ?R' \<union> (set vis - set (n # q))"
    unfolding eq using ih2 .
  ultimately show ?case unfolding r by simp
qed

lemma breadth_first_reaches:
  assumes "(BB, s) \<in> (edges F)\<^sup>*"
  shows "s \<in> set (breadth_first F BB)"
proof -
  from bf_loop_closed [of "[BB]" "[BB]" F]
  have b: "BB \<in> set (breadth_first F BB)"
    and c: "\<forall>n \<in> set (breadth_first F BB). set (succs_of F n) \<subseteq> set (breadth_first F BB)"
    by (auto simp: breadth_first_def)
  from assms show ?thesis
  proof (induction rule: rtrancl_induct)
    case base
    show ?case by (rule b)
  next
    case (step y z)
    with c show ?case by (auto simp: edges_def)
  qed
qed

lemma po_loop_distinct:
  assumes "distinct (map fst st)" "set (map fst st) \<subseteq> set vis"
  shows "distinct (po_loop F st vis) \<and>
    set (po_loop F st vis) \<subseteq> set (map fst st) \<union> (UNIV - set vis)"
  using assms
proof (induction F st vis rule: po_loop.induct)
  case (1 F vis)
  show ?case by simp
next
  case (2 F n st vis)
  then have "distinct (po_loop F st vis)"
    and s: "set (po_loop F st vis) \<subseteq> set (map fst st) \<union> (UNIV - set vis)" by auto
  moreover from 2(2,3) have "n \<notin> set (map fst st)" "n \<in> set vis" by auto
  ultimately show ?case by auto
next
  case (3 F n c cs st vis)
  show ?case
  proof (cases "c \<in> set vis")
    case True
    with 3 show ?thesis by auto
  next
    case False
    with "3.prems" have "distinct (map fst ((c, succs_of F c) # (n, cs) # st))"
      "set (map fst ((c, succs_of F c) # (n, cs) # st)) \<subseteq> set (c # vis)" by auto
    from "3.IH"(2) [OF False this] False show ?thesis by auto
  qed
qed

lemma distinct_post_order: "distinct (post_order F BB)"
  using po_loop_distinct [of "[(BB, succs_of F BB)]" "[BB]" F] by (simp add: post_order_def)

section \<open>The edges stay\<close>

lemma same_cfg_refl [simp]: "same_cfg F F"
  by (simp add: same_cfg_def)

lemma same_cfg_trans: "same_cfg F'' F' \<Longrightarrow> same_cfg F' F \<Longrightarrow> same_cfg F'' F"
  by (simp add: same_cfg_def)

lemma same_cfg_length: "same_cfg F' F \<Longrightarrow> length (blocks F') = length (blocks F)"
  unfolding same_cfg_def by (rule map_eq_imp_length_eq)

lemma same_cfg_succs_of: "same_cfg F' F \<Longrightarrow> succs_of F' = succs_of F"
proof (rule ext)
  fix b assume a: "same_cfg F' F"
  then have l: "length (blocks F') = length (blocks F)" by (rule same_cfg_length)
  show "succs_of F' b = succs_of F b"
  proof (cases "b < length (blocks F)")
    case True
    with l have "map succs (blocks F') ! b = succs (blocks F' ! b)"
      "map succs (blocks F) ! b = succs (blocks F ! b)" by simp_all
    with a True l show ?thesis by (simp add: succs_of_def same_cfg_def)
  next
    case False
    with l show ?thesis by (simp add: succs_of_def)
  qed
qed

lemma po_loop_cong: "succs_of F' = succs_of F \<Longrightarrow> po_loop F' st vis = po_loop F st vis"
  by (induction F st vis rule: po_loop.induct) auto

lemma bf_loop_cong: "succs_of F' = succs_of F \<Longrightarrow> bf_loop F' q vis = bf_loop F q vis"
  by (induction F q vis rule: bf_loop.induct) (auto split: prod.splits)

lemma same_cfg_post_order:
  assumes "same_cfg F' F"
  shows "post_order F' BB = post_order F BB"
proof -
  from assms have s: "succs_of F' = succs_of F" by (rule same_cfg_succs_of)
  from po_loop_cong [OF s] show ?thesis unfolding post_order_def s .
qed

lemma same_cfg_breadth_first:
  assumes "same_cfg F' F"
  shows "breadth_first F' BB = breadth_first F BB"
proof -
  from assms have s: "succs_of F' = succs_of F" by (rule same_cfg_succs_of)
  from bf_loop_cong [OF s] show ?thesis unfolding breadth_first_def .
qed

lemma same_cfg_replaceAllUsesWith [simp]: "same_cfg (replaceAllUsesWith F a b) F"
  by (simp add: same_cfg_def)

lemma same_cfg_moveBefore [simp]: "same_cfg (moveBefore F a b) F"
  by (simp add: same_cfg_def moveBefore_def comp_def)

lemma same_cfg_eraseFromParent [simp]: "same_cfg (eraseFromParent F a) F"
  by (simp add: same_cfg_def eraseFromParent_def comp_def)

lemma same_cfg_erase_all: "same_cfg (erase_all F del) F"
  unfolding erase_all_def
proof (induction del arbitrary: F)
  case Nil
  show ?case by simp
next
  case (Cons d del)
  have "same_cfg (fold (\<lambda>I F'. eraseFromParent F' I) del (eraseFromParent F d)) (eraseFromParent F d)"
    by (rule Cons)
  then have "same_cfg (fold (\<lambda>I F'. eraseFromParent F' I) del (eraseFromParent F d)) F"
    by (rule same_cfg_trans) simp
  then show ?case by simp
qed

section \<open>Analysis: where the members of the sets stand\<close>

lemma rank_of_le: "rank_of xs b \<le> length xs"
  by (induction xs) auto

lemma rank_of_mem: "b \<in> set xs \<Longrightarrow> rank_of xs b < length xs"
  by (induction xs) auto

lemma rank_of_append:
  "rank_of (xs @ ys) b = (if b \<in> set xs then rank_of xs b else length xs + rank_of ys b)"
  by (induction xs) auto

lemma loc_inv_step:
  assumes inv: "loc_inv F done S" and nb: "B \<notin> set done"
  shows "loc_inv F (done @ [B]) (analyse_block TLI F B S)"
proof -
  let ?S' = "analyse_block TLI F B S"
  let ?d = "done @ [B]"
  from inv nb have "\<And>x. x \<notin> set (UseSets S B)" "\<And>x. x \<notin> set (InSets S B)"
    "\<And>x. x \<notin> set (OutSets S B)"
    unfolding loc_inv_def by blast+
  then have e: "set (UseSets S B) = {}" "set (InSets S B) = {}" "set (OutSets S B) = {}"
    by (auto intro!: equals0I simp del: set_empty)
  have rk: "rank_of ?d s = rank_of done s" if "s \<in> set done" for s
    using that by (simp add: rank_of_append)
  have rB: "rank_of ?d B = length done" using nb by (simp add: rank_of_append)
  have use: "b \<in> set ?d \<and> x \<in> set (body_of F b)" if "x \<in> set (UseSets ?S' b)" for b x
  proof (cases "b = B")
    case True
    with that e show ?thesis by (auto simp: analyse_block_Use use_of_def)
  next
    case False
    with that inv show ?thesis unfolding loc_inv_def by (auto simp: analyse_block_Use)
  qed
  have out: "b \<in> set ?d \<and> (\<exists>s \<in> set ?d. x \<in> set (body_of F s) \<and> rank_of ?d s < rank_of ?d b \<and>
      (b, s) \<in> (edges F)\<^sup>+)" if "x \<in> set (OutSets ?S' b)" for b x
  proof (cases "b = B")
    case True
    with that e have "x \<in> out_new F S B" by (simp add: analyse_block_Out)
    with out_new_subset [of F S B] obtain Succ where
      sc: "Succ \<in> set (succs_of F B)" "x \<in> set (InSets S Succ)" by auto
    with inv obtain s where s: "s \<in> set done" "x \<in> set (body_of F s)" "(Succ, s) \<in> (edges F)\<^sup>*"
      unfolding loc_inv_def by blast
    from sc(1) have "(B, Succ) \<in> edges F" by (simp add: edges_def)
    from this s(3) have "(B, s) \<in> (edges F)\<^sup>+" by (rule rtrancl_into_trancl2)
    moreover have "rank_of ?d s < rank_of ?d B"
      using s(1) rB rk [OF s(1)] rank_of_mem [OF s(1)] by simp
    ultimately show ?thesis using True s by auto
  next
    case False
    with that have o: "x \<in> set (OutSets S b)" by (simp add: analyse_block_Out)
    with inv obtain s where s: "b \<in> set done" "s \<in> set done" "x \<in> set (body_of F s)"
      "rank_of done s < rank_of done b" "(b, s) \<in> (edges F)\<^sup>+"
      unfolding loc_inv_def by blast
    then show ?thesis using rk by auto
  qed
  have "in": "b \<in> set ?d \<and> (\<exists>s \<in> set ?d. x \<in> set (body_of F s) \<and> rank_of ?d s \<le> rank_of ?d b \<and>
      (b, s) \<in> (edges F)\<^sup>*)" if "x \<in> set (InSets ?S' b)" for b x
  proof (cases "b = B")
    case True
    with that e have "x \<in> kept F ?S' B" by (simp add: analyse_block_In)
    then have "x \<in> set (UseSets ?S' B) \<or> x \<in> set (OutSets ?S' B)" unfolding kept_def by blast
    then show ?thesis
    proof
      assume "x \<in> set (UseSets ?S' B)"
      from use [OF this] True show ?thesis by auto
    next
      assume "x \<in> set (OutSets ?S' B)"
      from out [OF this] obtain s where "s \<in> set ?d" "x \<in> set (body_of F s)"
        "rank_of ?d s < rank_of ?d B" "(B, s) \<in> (edges F)\<^sup>+" by blast
      then have "s \<in> set ?d \<and> x \<in> set (body_of F s) \<and> rank_of ?d s \<le> rank_of ?d B \<and>
          (B, s) \<in> (edges F)\<^sup>*" by (simp add: trancl_into_rtrancl)
      with True show ?thesis by auto
    qed
  next
    case False
    with that have o: "x \<in> set (InSets S b)" by (simp add: analyse_block_In)
    with inv obtain s where s: "b \<in> set done" "s \<in> set done" "x \<in> set (body_of F s)"
      "rank_of done s \<le> rank_of done b" "(b, s) \<in> (edges F)\<^sup>*"
      unfolding loc_inv_def by blast
    then show ?thesis using rk by auto
  qed
  from use out "in" show ?thesis unfolding loc_inv_def by blast
qed

lemma loc_inv_analyse: "distinct order \<Longrightarrow> loc_inv F order (analyse TLI F order)"
proof (induction order rule: rev_induct)
  case Nil
  show ?case by (simp add: loc_inv_def analyse_def no_sets_def)
next
  case (snoc B order)
  then have "loc_inv F order (analyse TLI F order)" "B \<notin> set order" by auto
  from loc_inv_step [OF this] show ?case by (simp add: analyse_def)
qed

lemma weight_pos: "0 < weight order b"
  using rank_of_le [of order b] by (simp add: weight_def)

lemma weight_less: "rank_of order s < rank_of order b \<Longrightarrow> weight order b < weight order s"
  using rank_of_le [of order b] by (simp add: weight_def)

text \<open>What a round knows of a candidate: it is relocatable, and it stands in a block that
  the candidate's block reaches and that the traversal met earlier.\<close>

lemma out_member:
  assumes "x \<in> set (OutSets (analyse TLI F order) B)" "distinct order"
  shows "isRelocatable TLI (inst_at F x) \<and>
    (\<exists>s. x \<in> set (body_of F s) \<and> weight order B < weight order s \<and>
       s \<in> set (breadth_first F B) \<and> s \<noteq> B)"
proof -
  from gate_inv_analyse [of TLI F order] assms(1) have g: "isRelocatable TLI (inst_at F x)"
    unfolding gate_inv_def by blast
  from loc_inv_analyse [OF assms(2), of F TLI] assms(1) obtain s where
    s: "x \<in> set (body_of F s)" "rank_of order s < rank_of order B" "(B, s) \<in> (edges F)\<^sup>+"
    unfolding loc_inv_def by blast
  from s(3) have "s \<in> set (breadth_first F B)"
    by (intro breadth_first_reaches trancl_into_rtrancl)
  moreover from s(2) have "s \<noteq> B" by auto
  ultimately show ?thesis using g s weight_less by blast
qed

section \<open>Driver: a measure that every changing round lowers\<close>

lemma body_of_range: "x \<in> set (body_of F b) \<Longrightarrow> b < length (blocks F)"
  by (cases "b < length (blocks F)") (auto simp: body_of_def)

lemma length_blocks_moveBefore [simp]: "length (blocks (moveBefore F x e)) = length (blocks F)"
  by (simp add: moveBefore_def)

lemma length_blocks_eraseFromParent [simp]:
  "length (blocks (eraseFromParent F d)) = length (blocks F)"
  by (simp add: eraseFromParent_def)

lemma body_of_eraseFromParent: "body_of (eraseFromParent F d) b = removeAll d (body_of F b)"
  by (simp add: body_of_def eraseFromParent_def)

lemma length_removeAll_distinct:
  "distinct ys \<Longrightarrow> length (removeAll x ys) + (if x \<in> set ys then 1 else 0) = length ys"
  by (induction ys) auto

lemma length_moved:
  assumes "distinct ys" "e \<noteq> x"
  shows "length (insert_before e x (removeAll x ys)) + (if x \<in> set ys then 1 else 0) =
    length ys + (if e \<in> set ys then 1 else 0)"
  using length_removeAll_distinct [OF assms(1), of x] assms(2)
  by (auto simp: length_insert_before)

lemma sum_delta_less: "s < (n :: nat) \<Longrightarrow> (\<Sum>b < n. if b = s then (w b :: nat) else 0) = w s"
  by (simp add: sum.delta)

lemma mu_moveBefore:
  assumes d: "distinct (all_insts F)" and x: "x \<in> set (body_of F s)"
    and e: "e \<in> set (body_of F BB)" and ne: "e \<noteq> x"
  shows "mu w (moveBefore F x e) + w s = mu w F + w BB"
proof -
  let ?n = "length (blocks F)"
  from x e have r: "s < ?n" "BB < ?n" by (auto dest: body_of_range)
  have xs: "x \<in> set (body_of F b) \<longleftrightarrow> b = s" if "b < ?n" for b
    using body_of_disjoint [OF d, of b s] x by auto
  have es: "e \<in> set (body_of F b) \<longleftrightarrow> b = BB" if "b < ?n" for b
    using body_of_disjoint [OF d, of b BB] e by auto
  have t: "length (body_of (moveBefore F x e) b) * w b + (if b = s then w b else 0) =
      length (body_of F b) * w b + (if b = BB then w b else 0)" if "b < ?n" for b
  proof -
    from length_moved [OF distinct_body_of [OF d, of b] ne]
    have "length (body_of (moveBefore F x e) b) + (if b = s then 1 else 0) =
        length (body_of F b) + (if b = BB then 1 else 0)"
      using xs [OF that] es [OF that] by (simp add: body_of_moveBefore)
    then have "(length (body_of (moveBefore F x e) b) + (if b = s then 1 else 0)) * w b =
        (length (body_of F b) + (if b = BB then 1 else 0)) * w b" by simp
    then show ?thesis by (simp add: distrib_right split: if_splits)
  qed
  have "mu w (moveBefore F x e) + w s =
      (\<Sum>b < ?n. length (body_of (moveBefore F x e) b) * w b + (if b = s then w b else 0))"
    using r by (simp add: mu_def sum.distrib sum_delta_less)
  also have "\<dots> = (\<Sum>b < ?n. length (body_of F b) * w b + (if b = BB then w b else 0))"
    using t by (intro sum.cong) auto
  also have "\<dots> = mu w F + w BB"
    using r by (simp add: mu_def sum.distrib sum_delta_less)
  finally show ?thesis .
qed

lemma mu_eraseFromParent_le: "mu w (eraseFromParent F d) \<le> mu w F"
  unfolding mu_def
  by (simp, intro sum_mono mult_le_mono1) (simp add: body_of_eraseFromParent length_removeAll_less_eq)

lemma mu_eraseFromParent_less:
  assumes "d \<in> set (all_insts F)" "\<And>b. 0 < w b"
  shows "mu w (eraseFromParent F d) < mu w F"
proof -
  from assms(1) obtain B where "B \<in> set (blocks F)" "d \<in> set (body B)"
    unfolding all_insts_def by auto
  then obtain s where s: "s < length (blocks F)" "d \<in> set (body_of F s)"
    by (auto simp: in_set_conv_nth body_of_def)
  have "length (body_of (eraseFromParent F d) s) < length (body_of F s)"
    using s(2) by (simp add: body_of_eraseFromParent length_removeAll_less)
  with assms(2) [of s] have "length (body_of (eraseFromParent F d) s) * w s < length (body_of F s) * w s"
    by simp
  moreover have "\<forall>b \<in> {..<length (blocks F)}.
      length (body_of (eraseFromParent F d) b) * w b \<le> length (body_of F b) * w b"
    by (simp add: body_of_eraseFromParent length_removeAll_less_eq)
  ultimately show ?thesis
    unfolding mu_def using s(1)
    by (simp, intro sum_strict_mono_ex1) auto
qed

lemma erase_all_Cons: "erase_all F (d # del) = erase_all (eraseFromParent F d) del"
  by (simp add: erase_all_def)

lemma mu_erase_all_le: "mu w (erase_all F del) \<le> mu w F"
proof (induction del arbitrary: F)
  case Nil
  show ?case by simp
next
  case (Cons d del)
  from Cons [of "eraseFromParent F d"] mu_eraseFromParent_le [of w F d]
  show ?case unfolding erase_all_Cons by simp
qed

lemma mu_erase_all_less:
  assumes "x \<in> set del" "x \<in> set (all_insts F)" "\<And>b. 0 < w b"
  shows "mu w (erase_all F del) < mu w F"
proof -
  from assms(1) obtain pre post where p: "del = pre @ x # post" "x \<notin> set pre"
    by (auto dest: split_list_first)
  then have e: "erase_all F del = erase_all (eraseFromParent (erase_all F pre) x) post"
    by (simp add: erase_all_def)
  have "x \<in> set (all_insts (erase_all F pre))"
    using assms(2) p(2) by (simp add: all_insts_erase_all)
  from mu_eraseFromParent_less [OF this assms(3)]
  have "mu w (eraseFromParent (erase_all F pre) x) < mu w (erase_all F pre)" .
  with mu_erase_all_le [of w "eraseFromParent (erase_all F pre) x" post]
    mu_erase_all_le [of w F pre] show ?thesis unfolding e by simp
qed

section \<open>Driver: terminators stay\<close>

lemma last_removeAll:
  "ys \<noteq> [] \<Longrightarrow> last ys \<noteq> x \<Longrightarrow> removeAll x ys \<noteq> [] \<and> last (removeAll x ys) = last ys"
  by (induction ys) auto

lemma getTerminator_cong:
  assumes "body_of F' b \<noteq> [] \<Longrightarrow> last (body_of F' b) = last (body_of F b)"
    "(body_of F' b = []) = (body_of F b = [])"
    "\<And>i. isTerminator (inst_at F' i) = isTerminator (inst_at F i)"
  shows "getTerminator F' b = getTerminator F b"
  using assms by (auto simp: getTerminator_def)

lemma getTerminator_moveBefore_nonterm:
  assumes "nonterm F x" "getTerminator F b \<noteq> None"
  shows "getTerminator (moveBefore F x e) b = getTerminator F b"
proof -
  from assms(2) have ne: "body_of F b \<noteq> []" and t: "isTerminator (inst_at F (last (body_of F b)))"
    by (auto simp: getTerminator_def split: if_splits)
  from t assms(1) have "last (body_of F b) \<noteq> x" by (auto simp: nonterm_def)
  from last_removeAll [OF ne this]
  have r: "removeAll x (body_of F b) \<noteq> []" "last (removeAll x (body_of F b)) = last (body_of F b)"
    by simp_all
  from insert_before_last [OF r(1), of e x] r(2)
  have "body_of (moveBefore F x e) b \<noteq> []" "last (body_of (moveBefore F x e) b) = last (body_of F b)"
    by (simp_all add: body_of_moveBefore)
  with ne show ?thesis by (intro getTerminator_cong) simp_all
qed

lemma term_ok_moveBefore: "term_ok F \<Longrightarrow> nonterm F x \<Longrightarrow> term_ok (moveBefore F x e)"
  by (simp add: term_ok_def getTerminator_moveBefore_nonterm)

lemma inst_at_eraseFromParent [simp]: "inst_at (eraseFromParent F d) = inst_at F"
  by (rule ext) (simp add: inst_at_def)

lemma getTerminator_eraseFromParent:
  assumes "nonterm F d" "getTerminator F b \<noteq> None"
  shows "getTerminator (eraseFromParent F d) b = getTerminator F b"
proof -
  from assms(2) have ne: "body_of F b \<noteq> []" and t: "isTerminator (inst_at F (last (body_of F b)))"
    by (auto simp: getTerminator_def split: if_splits)
  from t assms(1) have "last (body_of F b) \<noteq> d" by (auto simp: nonterm_def)
  from last_removeAll [OF ne this] ne show ?thesis
    by (intro getTerminator_cong) (simp_all add: body_of_eraseFromParent)
qed

lemma nonterm_eraseFromParent [simp]: "nonterm (eraseFromParent F d) = nonterm F"
  by (rule ext) (simp add: nonterm_def)

lemma term_ok_erase_all:
  "term_ok F \<Longrightarrow> \<forall>d \<in> set del. nonterm F d \<Longrightarrow> term_ok (erase_all F del)"
proof (induction del arbitrary: F)
  case Nil
  then show ?case by simp
next
  case (Cons d del)
  from Cons.prems have "term_ok (eraseFromParent F d)"
    by (simp add: term_ok_def getTerminator_eraseFromParent)
  moreover from Cons.prems have "\<forall>x \<in> set del. nonterm (eraseFromParent F d) x" by simp
  ultimately show ?case unfolding erase_all_Cons by (rule Cons.IH)
qed

lemma term_ok_cong:
  "length (blocks F') = length (blocks F) \<Longrightarrow> (\<And>b. getTerminator F' b = getTerminator F b) \<Longrightarrow>
     term_ok F' = term_ok F"
  by (simp add: term_ok_def)

lemma distinct_erase_all: "distinct (all_insts F) \<Longrightarrow> distinct (all_insts (erase_all F del))"
  by (simp add: all_insts_erase_all)

section \<open>Driver: what a scan marks\<close>

lemma replace_dups_opcode:
  "replace_dups F Inst Is del = (F', del') \<Longrightarrow> opcode (inst_at F' i) = opcode (inst_at F i)"
  by (induction F Inst Is del rule: replace_dups.induct)
     (auto split: if_splits simp: inst_at_replaceAllUsesWith)

lemma nonterm_cong: "opcode (inst_at F' i) = opcode (inst_at F i) \<Longrightarrow> nonterm F' i = nonterm F i"
  by (simp add: nonterm_def isTerminator_def)

lemma replace_dups_nonterm:
  "replace_dups F Inst Is del = (F', del') \<Longrightarrow> \<forall>x \<in> set del. nonterm F x \<Longrightarrow> nonterm F Inst \<Longrightarrow>
     \<forall>x \<in> set del'. nonterm F x"
proof (induction F Inst Is del rule: replace_dups.induct)
  case (1 F Inst del)
  then show ?case by simp
next
  case (2 F Inst I Is del)
  show ?case
  proof (cases "isIdenticalTo F I Inst \<and> I \<noteq> Inst")
    case True
    let ?F1 = "replaceAllUsesWith F I Inst"
    from True "2.prems" have r: "replace_dups ?F1 Inst Is (insort_insert I del) = (F', del')"
      by simp
    have n: "nonterm ?F1 = nonterm F"
      by (rule ext) (simp add: nonterm_def inst_at_replaceAllUsesWith)
    from True "2.prems"(3) have "nonterm F I"
      by (simp add: nonterm_def isTerminator_def isIdenticalTo_eq)
    with "2.prems"(2) have "\<forall>x \<in> set (insort_insert I del). nonterm ?F1 x"
      by (simp add: n set_insort_insert)
    from "2.IH"(1) [OF True r this] "2.prems"(3) show ?thesis by (simp add: n)
  next
    case False
    with 2 show ?thesis by auto
  qed
qed

lemma replace_dups_mono:
  "replace_dups F Inst Is del = (F', del') \<Longrightarrow> set del \<subseteq> set del'"
proof (induction F Inst Is del rule: replace_dups.induct)
  case (1 F Inst del)
  then show ?case by simp
next
  case (2 F Inst I Is del)
  then show ?case by (auto split: if_splits simp: set_insort_insert)
qed

lemma replace_dups_marks:
  "replace_dups F Inst Is del = (F', del') \<Longrightarrow> x \<in> set Is \<Longrightarrow> isIdenticalTo F x Inst \<Longrightarrow>
     x \<noteq> Inst \<Longrightarrow> x \<in> set del'"
proof (induction F Inst Is del rule: replace_dups.induct)
  case (1 F Inst del)
  then show ?case by simp
next
  case (2 F Inst I Is del)
  show ?case
  proof (cases "isIdenticalTo F I Inst \<and> I \<noteq> Inst")
    case True
    let ?F1 = "replaceAllUsesWith F I Inst"
    from True "2.prems" have r: "replace_dups ?F1 Inst Is (insort_insert I del) = (F', del')"
      by simp
    show ?thesis
    proof (cases "x = I")
      case T2: True
      from replace_dups_mono [OF r] T2 show ?thesis by (auto simp: set_insort_insert)
    next
      case False
      with "2.prems" have "x \<in> set Is" by simp
      moreover from "2.prems"(3) have "isIdenticalTo ?F1 x Inst"
        by (rule isIdenticalTo_replaceAllUsesWith)
      ultimately show ?thesis using "2.IH"(1) [OF True r] "2.prems"(4) by blast
    qed
  next
    case False
    with "2.prems" have "x \<noteq> I" by auto
    with False 2 show ?thesis by auto
  qed
qed

lemma replace_dups_same_cfg:
  "replace_dups F Inst Is del = (F', del') \<Longrightarrow> same_cfg F' F"
  by (drule replace_dups_blocks) (simp add: same_cfg_def)

lemma replace_dups_getTerminator_all:
  "replace_dups F Inst Is del = (F', del') \<Longrightarrow> term_ok F' = term_ok F"
  by (intro term_ok_cong) (auto dest: replace_dups_blocks replace_dups_getTerminator)

section \<open>Driver: a changing round lowers the measure\<close>

lemma mu_cong:
  assumes "blocks F' = blocks F"
  shows "mu w F' = mu w F"
  unfolding mu_def body_of_cong [OF assms] assms ..

lemma reach_insts_mem:
  "s \<in> set (breadth_first F BB) \<Longrightarrow> x \<in> set (body_of F s) \<Longrightarrow> x \<in> set (reach_insts F BB)"
  by (auto simp: reach_insts_def)

lemma hoist_loop_progress:
  assumes "hoist_loop F BB Origs Changed del = Some (F1, Changed1, del1)"
    and "distinct (all_insts F)" and "term_ok F"
    and "\<forall>x \<in> set Origs. cand_ok w F BB x" and "distinct Origs"
    and "\<forall>x \<in> set del. nonterm F x"
  shows "distinct (all_insts F1) \<and> term_ok F1 \<and> same_cfg F1 F \<and> mu w F1 \<le> mu w F \<and>
    (\<forall>x \<in> set del1. nonterm F1 x) \<and> set del \<subseteq> set del1 \<and>
    set (all_insts F1) = set (all_insts F) \<and>
    (Origs = [] \<or> mu w F1 < mu w F \<or> (\<exists>x \<in> set del1. x \<in> set (all_insts F1)))"
  using assms
proof (induction Origs arbitrary: F Changed del)
  case Nil
  then show ?case by simp
next
  case (Cons Orig Origs)
  note d = Cons.prems(2) and t = Cons.prems(3) and c = Cons.prems(4) and dO = Cons.prems(5)
    and nd = Cons.prems(6)
  from c obtain s where nO: "nonterm F Orig" and s: "Orig \<in> set (body_of F s)" "w BB < w s"
    "s \<in> set (breadth_first F BB)" "s \<noteq> BB"
    unfolding cand_ok_def by auto
  from body_of_disjoint [OF d s(4)] s(1) have nb: "Orig \<notin> set (body_of F BB)" by auto
  have pO: "Orig \<in> set (all_insts F)" using s(1) by (rule body_of_all_insts)
  show ?case
  proof (cases "checkBeforeMove F BB Orig")
    case (Some C)
    from find_Some_split [OF Some [unfolded checkBeforeMove_def]] obtain pre post where
      b: "body_of F BB = pre @ C # post" and ci: "isIdenticalTo F C Orig" by blast
    from b nb have ne: "Orig \<noteq> C" by auto
    from ci nO have nC: "nonterm F C"
      by (simp add: nonterm_def isTerminator_def isIdenticalTo_eq)
    obtain F2 del2 where r: "replace_dups F C (reach_insts F BB) del = (F2, del2)"
      by (cases "replace_dups F C (reach_insts F BB) del") auto
    have bl: "blocks F2 = blocks F" using r by (rule replace_dups_blocks)
    have ai: "all_insts F2 = all_insts F" using bl by (rule all_insts_cong)
    have bo: "body_of F2 = body_of F" using bl by (rule body_of_cong)
    have sc: "same_cfg F2 F" using r by (rule replace_dups_same_cfg)
    have nt: "nonterm F2 = nonterm F"
      by (rule ext, rule nonterm_cong, rule replace_dups_opcode [OF r])
    have t2: "term_ok F2" using t replace_dups_getTerminator_all [OF r] by simp
    have nd2: "\<forall>x \<in> set del2. nonterm F2 x"
      using replace_dups_nonterm [OF r nd nC] by (simp add: nt)
    have "Orig \<in> set (reach_insts F BB)" using s(3,1) by (rule reach_insts_mem)
    moreover from ci have "isIdenticalTo F Orig C" by (rule isIdenticalTo_sym)
    ultimately have m: "Orig \<in> set del2" using ne by (intro replace_dups_marks [OF r])
    have c2: "\<forall>x \<in> set Origs. cand_ok w F2 BB x"
    proof
      fix x assume "x \<in> set Origs"
      with c have "cand_ok w F BB x" by simp
      then show "cand_ok w F2 BB x"
        unfolding cand_ok_def nt bo same_cfg_breadth_first [OF sc] .
    qed
    have h: "hoist_loop F2 BB Origs True del2 = Some (F1, Changed1, del1)"
      using Cons.prems(1) Some r by simp
    from dO have dO2: "distinct Origs" by simp
    from d ai have d2: "distinct (all_insts F2)" by simp
    note IH = Cons.IH [OF h d2 t2 c2 dO2 nd2]
    note ih = IH [THEN conjunct1] IH [THEN conjunct2, THEN conjunct1]
      IH [THEN conjunct2, THEN conjunct2, THEN conjunct1]
      IH [THEN conjunct2, THEN conjunct2, THEN conjunct2, THEN conjunct1]
      IH [THEN conjunct2, THEN conjunct2, THEN conjunct2, THEN conjunct2, THEN conjunct1]
      IH [THEN conjunct2, THEN conjunct2, THEN conjunct2, THEN conjunct2, THEN conjunct2,
        THEN conjunct1]
      IH [THEN conjunct2, THEN conjunct2, THEN conjunct2, THEN conjunct2, THEN conjunct2,
        THEN conjunct2, THEN conjunct1, unfolded ai]
    from ih(3) sc have "same_cfg F1 F" by (rule same_cfg_trans)
    moreover from ih(4) mu_cong [OF bl, of w] have "mu w F1 \<le> mu w F" by simp
    moreover from replace_dups_mono [OF r] ih(6) have "set del \<subseteq> set del1" by blast
    moreover from m ih(6,7) pO have "\<exists>x \<in> set del1. x \<in> set (all_insts F1)" by blast
    ultimately show ?thesis using ih(1,2,5,7) by blast
  next
    case None
    then obtain End where te: "getTerminator F BB = Some End"
      using Cons.prems(1) by (cases "getTerminator F BB") auto
    let ?M = "moveBefore F Orig End"
    from getTerminator_SomeD [OF te] have e: "End \<in> set (body_of F BB)"
      "isTerminator (inst_at F End)" by simp_all
    with nO have ne: "End \<noteq> Orig" by (auto simp: nonterm_def)
    have dM: "distinct (all_insts ?M)" using d by (rule distinct_moveBefore)
    have tM: "term_ok ?M" using t nO by (rule term_ok_moveBefore)
    have pE: "End \<in> set (all_insts F)" using e(1) by (rule body_of_all_insts)
    have sM: "set (all_insts ?M) = set (all_insts F)"
      using d pO pE ne by (rule set_all_insts_moveBefore)
    from mu_moveBefore [OF d s(1) e(1) ne, of w] s(2) have muM: "mu w ?M < mu w F" by simp
    have ntM: "nonterm ?M = nonterm F" by (rule ext) (simp add: nonterm_def)
    obtain F2 del2 where r: "replace_dups ?M Orig (reach_insts ?M BB) del = (F2, del2)"
      by (cases "replace_dups ?M Orig (reach_insts ?M BB) del") auto
    have bl: "blocks F2 = blocks ?M" using r by (rule replace_dups_blocks)
    have ai: "all_insts F2 = all_insts ?M" using bl by (rule all_insts_cong)
    have bo: "body_of F2 = body_of ?M" using bl by (rule body_of_cong)
    have sc: "same_cfg F2 F"
      using replace_dups_same_cfg [OF r] same_cfg_moveBefore by (rule same_cfg_trans)
    have "nonterm F2 = nonterm ?M"
      by (rule ext, rule nonterm_cong, rule replace_dups_opcode [OF r])
    with ntM have nt: "nonterm F2 = nonterm F" by simp
    have t2: "term_ok F2" using tM replace_dups_getTerminator_all [OF r] by simp
    have "\<forall>x \<in> set del. nonterm ?M x" "nonterm ?M Orig" using nd nO by (simp_all add: ntM)
    from replace_dups_nonterm [OF r this] have nd2: "\<forall>x \<in> set del2. nonterm F2 x"
      by (simp add: nt ntM)
    have c2: "\<forall>x \<in> set Origs. cand_ok w F2 BB x"
    proof
      fix x assume x: "x \<in> set Origs"
      with dO have xO: "x \<noteq> Orig" by auto
      from x c obtain s' where s': "nonterm F x" "x \<in> set (body_of F s')" "w BB < w s'"
        "s' \<in> set (breadth_first F BB)" "s' \<noteq> BB"
        unfolding cand_ok_def by auto
      from s'(2) xO have "x \<in> set (body_of ?M s')"
        by (simp add: body_of_moveBefore set_insert_before)
      with s' show "cand_ok w F2 BB x"
        unfolding cand_ok_def nt bo same_cfg_breadth_first [OF sc] by blast
    qed
    have h: "hoist_loop F2 BB Origs True del2 = Some (F1, Changed1, del1)"
      using Cons.prems(1) None te r by simp
    from dO have dO2: "distinct Origs" by simp
    from dM ai have d2: "distinct (all_insts F2)" by simp
    note IH = Cons.IH [OF h d2 t2 c2 dO2 nd2]
    note ih = IH [THEN conjunct1] IH [THEN conjunct2, THEN conjunct1]
      IH [THEN conjunct2, THEN conjunct2, THEN conjunct1]
      IH [THEN conjunct2, THEN conjunct2, THEN conjunct2, THEN conjunct1]
      IH [THEN conjunct2, THEN conjunct2, THEN conjunct2, THEN conjunct2, THEN conjunct1]
      IH [THEN conjunct2, THEN conjunct2, THEN conjunct2, THEN conjunct2, THEN conjunct2,
        THEN conjunct1]
      IH [THEN conjunct2, THEN conjunct2, THEN conjunct2, THEN conjunct2, THEN conjunct2,
        THEN conjunct2, THEN conjunct1, unfolded ai]
    from ih(3) sc have "same_cfg F1 F" by (rule same_cfg_trans)
    moreover from ih(4) mu_cong [OF bl, of w] muM have lt: "mu w F1 < mu w F" by simp
    moreover from lt have "mu w F1 \<le> mu w F" by simp
    moreover from replace_dups_mono [OF r] ih(6) have "set del \<subseteq> set del1" by blast
    moreover from ih(7) sM have "set (all_insts F1) = set (all_insts F)" by simp
    ultimately show ?thesis using ih(1,2,5) by blast
  qed
qed

section \<open>Driver: the pass returns\<close>

lemma wf_func_iff: "wf_func F = (distinct (all_insts F) \<and> term_ok F)"
  by (auto simp: wf_func_def term_ok_def list_all_iff)

lemma distinct_fold_out:
  "distinct acc0 \<Longrightarrow>
     distinct (fold (\<lambda>KV acc. if snd KV = n then insort_insert (fst KV) acc else acc) count acc0)"
  by (induction count arbitrary: acc0) (auto simp: distinct_insort_insert)

lemma distinct_OutSets_step:
  "\<forall>B. distinct (OutSets S B) \<Longrightarrow> \<forall>B. distinct (OutSets (analyse_block TLI F BB S) B)"
  by (simp add: analyse_block_def findOutSet_def Let_def distinct_fold_out)

lemma distinct_OutSets: "distinct (OutSets (analyse TLI F order) B)"
proof -
  have "\<forall>B. distinct (OutSets S B) \<Longrightarrow> \<forall>B. distinct (OutSets (fold (analyse_block TLI F) order S) B)"
    for S
    by (induction order arbitrary: S) (auto dest: distinct_OutSets_step)
  then show ?thesis by (simp add: analyse_def no_sets_def)
qed

lemma out_member_range:
  assumes "x \<in> set (OutSets (analyse TLI F order) B)" "distinct order"
  shows "B < length (blocks F)"
proof -
  from loc_inv_analyse [OF assms(2), of F TLI] assms(1) obtain s where
    "(B, s) \<in> (edges F)\<^sup>+" unfolding loc_inv_def by blast
  then obtain z where "(B, z) \<in> edges F" by (auto dest: tranclD)
  then show ?thesis by (cases "B < length (blocks F)") (auto simp: edges_def succs_of_def)
qed

lemma isRelocatable_nonterm: "isRelocatable TLI (inst_at F x) \<Longrightarrow> nonterm F x"
  unfolding nonterm_def by (rule gated_flags(3))

lemma hoist_progress:
  assumes d: "distinct (all_insts F)" and t: "term_ok F" and o: "distinct order"
  shows "hoistInstructions F B (OutSets (analyse TLI F order)) = Some (False, F) \<or>
    (\<exists>F1. hoistInstructions F B (OutSets (analyse TLI F order)) = Some (True, F1) \<and>
       distinct (all_insts F1) \<and> term_ok F1 \<and> same_cfg F1 F \<and>
       mu (weight order) F1 < mu (weight order) F)"
proof (cases "OutSets (analyse TLI F order) B = []")
  case True
  then show ?thesis by (simp add: hoistInstructions_def)
next
  case False
  let ?Outs = "OutSets (analyse TLI F order)"
  let ?w = "weight order"
  from False obtain x where "x \<in> set (?Outs B)" by (cases "?Outs B") auto
  from out_member_range [OF this o] t have gt: "getTerminator F B \<noteq> None"
    by (simp add: term_ok_def)
  have c: "\<forall>x \<in> set (?Outs B). cand_ok ?w F B x"
    using out_member [OF _ o, of _ TLI F B] unfolding cand_ok_def
    by (blast intro: isRelocatable_nonterm)
  from hoist_loop_result [where F = F and BB = B and Origs = "?Outs B" and Changed = False
      and del = "[]"] gt False
  obtain F1 del1 where h: "hoist_loop F B (?Outs B) False [] = Some (F1, True, del1)"
    by (auto split: option.splits)
  have "\<forall>x \<in> set []. nonterm F x" by simp
  from hoist_loop_progress [OF h d t c distinct_OutSets this] False
  have p: "distinct (all_insts F1)" "term_ok F1" "same_cfg F1 F" "mu ?w F1 \<le> mu ?w F"
    "\<forall>x \<in> set del1. nonterm F1 x"
    "mu ?w F1 < mu ?w F \<or> (\<exists>x \<in> set del1. x \<in> set (all_insts F1))"
    by blast+
  have "distinct (all_insts (erase_all F1 del1))" using p(1) by (rule distinct_erase_all)
  moreover have "term_ok (erase_all F1 del1)" using p(2,5) by (rule term_ok_erase_all)
  moreover have "same_cfg (erase_all F1 del1) F"
    using same_cfg_erase_all p(3) by (rule same_cfg_trans)
  moreover have "mu ?w (erase_all F1 del1) < mu ?w F"
  proof -
    from p(6) show ?thesis
    proof
      assume "mu ?w F1 < mu ?w F"
      with mu_erase_all_le [of ?w F1 del1] show ?thesis by simp
    next
      assume "\<exists>x \<in> set del1. x \<in> set (all_insts F1)"
      then obtain x where "x \<in> set del1" "x \<in> set (all_insts F1)" by blast
      from mu_erase_all_less [OF this, of ?w] p(4) show ?thesis by (simp add: weight_pos)
    qed
  qed
  ultimately show ?thesis using h by (simp add: hoistInstructions_def)
qed

lemma hoist_blocks_progress:
  assumes "\<And>B. hoistInstructions F B Outs = Some (False, F) \<or>
     (\<exists>F1. hoistInstructions F B Outs = Some (True, F1) \<and> Q F1)"
  shows "hoist_blocks F Outs BBs = Some (False, F) \<or>
    (\<exists>F1. hoist_blocks F Outs BBs = Some (True, F1) \<and> Q F1)"
proof (induction BBs)
  case Nil
  show ?case by simp
next
  case (Cons B BBs)
  from assms [of B] show ?case
  proof
    assume "hoistInstructions F B Outs = Some (False, F)"
    with Cons show ?thesis by simp
  next
    assume "\<exists>F1. hoistInstructions F B Outs = Some (True, F1) \<and> Q F1"
    then show ?thesis by auto
  qed
qed

lemma round_progress:
  assumes "wf_func F"
  shows "round TLI F = Some (False, F) \<or>
    (\<exists>F1. round TLI F = Some (True, F1) \<and> wf_func F1 \<and> mu_func F1 < mu_func F)"
proof -
  let ?order = "post_order F 0"
  let ?Q = "\<lambda>F1. distinct (all_insts F1) \<and> term_ok F1 \<and> same_cfg F1 F \<and>
       mu (weight ?order) F1 < mu (weight ?order) F"
  from assms have d: "distinct (all_insts F)" and t: "term_ok F" by (simp_all add: wf_func_iff)
  have "round TLI F = Some (False, F) \<or> (\<exists>F1. round TLI F = Some (True, F1) \<and> ?Q F1)"
    unfolding round_def
    by (rule hoist_blocks_progress) (rule hoist_progress [OF d t distinct_post_order])
  moreover have "wf_func F1 \<and> mu_func F1 < mu_func F" if "?Q F1" for F1
    using that same_cfg_post_order [of F1 F 0] by (simp add: wf_func_iff mu_func_def)
  ultimately show ?thesis by blast
qed

section \<open>The claims\<close>

subsection \<open>Purity gating\<close>

text \<open>
  Claim C1, as the code has it by design: in the sets of an analysis round, whatever the
  order of the blocks, a member of a Use, In or Out set is never an instruction that
  allocates storage, a phi node or a terminator; a member that is not a call neither
  reads memory nor has a side effect; and a member that is a call has a callee that is
  known statically, that returns no pointer and takes no pointer, and that the library
  table knows by name. (The Def sets are outside this: they are not gated.)
\<close>

theorem purity_gating:
  assumes "I \<in> set (UseSets (analyse TLI F order) BB) \<union> set (InSets (analyse TLI F order) BB)
      \<union> set (OutSets (analyse TLI F order) BB)"
  shows "opcode (inst_at F I) \<noteq> Alloca \<and> opcode (inst_at F I) \<noteq> PHI \<and>
    \<not> isTerminator (inst_at F I) \<and>
    (if opcode (inst_at F I) = Call
     then \<exists>Called. calledFunction (inst_at F I) = Some Called \<and> \<not> returnsPointer Called \<and>
            (\<forall>p \<in> set (argIsPointer Called). \<not> p) \<and> TLI (fname Called)
     else \<not> mayReadFromMemory (inst_at F I) \<and> \<not> mayHaveSideEffects (inst_at F I))"
proof -
  from assms gate_inv_analyse [of TLI F order] have r: "isRelocatable TLI (inst_at F I)"
    unfolding gate_inv_def by blast
  show ?thesis
  proof (cases "opcode (inst_at F I) = Call")
    case True
    from r isRelocatable_call_iff [OF True, of TLI]
    have "\<exists>Called. calledFunction (inst_at F I) = Some Called \<and> \<not> returnsPointer Called \<and>
        (\<forall>p \<in> set (argIsPointer Called). \<not> p) \<and> TLI (fname Called)" by simp
    with True gated_flags(1-3) [OF r] show ?thesis by simp
  next
    case False
    with gated_flags(1-4) [OF r] show ?thesis by simp
  qed
qed

theorem purity_gating_witness:
  "1 \<in> set (OutSets (analyse no_lib prog_diamond (post_order prog_diamond 0)) 0) \<and>
   opcode (inst_at prog_diamond 1) = Other 1 \<and>
   \<not> mayReadFromMemory (inst_at prog_diamond 1) \<and> \<not> mayHaveSideEffects (inst_at prog_diamond 1) \<and>
   0 \<in> set (UseSets (analyse lib_abs prog_abs (post_order prog_abs 0)) 0) \<and>
   opcode (inst_at prog_abs 0) = Call \<and>
   (\<exists>Called. calledFunction (inst_at prog_abs 0) = Some Called \<and> \<not> returnsPointer Called \<and>
      (\<forall>p \<in> set (argIsPointer Called). \<not> p) \<and> lib_abs (fname Called))"
proof -
  have m: "1 \<in> set (OutSets (analyse no_lib prog_diamond (post_order prog_diamond 0)) 0)"
    by code_simp
  have c: "opcode (inst_at prog_diamond 1) = Other 1"
    by code_simp
  from m have "1 \<in> set (UseSets (analyse no_lib prog_diamond (post_order prog_diamond 0)) 0)
      \<union> set (InSets (analyse no_lib prog_diamond (post_order prog_diamond 0)) 0)
      \<union> set (OutSets (analyse no_lib prog_diamond (post_order prog_diamond 0)) 0)"
    by blast
  from purity_gating [OF this] c
  have a: "\<not> mayReadFromMemory (inst_at prog_diamond 1) \<and> \<not> mayHaveSideEffects (inst_at prog_diamond 1)"
    by simp
  have m': "0 \<in> set (UseSets (analyse lib_abs prog_abs (post_order prog_abs 0)) 0)"
    by code_simp
  have c': "opcode (inst_at prog_abs 0) = Call"
    by code_simp
  from m' have "0 \<in> set (UseSets (analyse lib_abs prog_abs (post_order prog_abs 0)) 0)
      \<union> set (InSets (analyse lib_abs prog_abs (post_order prog_abs 0)) 0)
      \<union> set (OutSets (analyse lib_abs prog_abs (post_order prog_abs 0)) 0)"
    by blast
  from purity_gating [OF this] c'
  have b: "\<exists>Called. calledFunction (inst_at prog_abs 0) = Some Called \<and> \<not> returnsPointer Called \<and>
      (\<forall>p \<in> set (argIsPointer Called). \<not> p) \<and> lib_abs (fname Called)"
    by simp
  from m c a m' c' b show ?thesis by blast
qed

text \<open>
  Claim C1 as it is written fails: the terminator of a block that uses a value of the
  block is in the Def set of the block, and a call of a known library routine with
  integer types is in the Use set although it has a side effect.
\<close>

theorem purity_gating_counterexample:
  "2 \<in> set (DefSets (analyse no_lib prog_line (post_order prog_line 0)) 0) \<and>
   isTerminator (inst_at prog_line 2) \<and>
   0 \<in> set (UseSets (analyse lib_putchar prog_call (post_order prog_call 0)) 0) \<and>
   mayHaveSideEffects (inst_at prog_call 0) \<and> mayReadFromMemory (inst_at prog_call 0)"
  by code_simp

subsection \<open>The Def set\<close>

text \<open>
  Claim C2, as the code has it: the Def set of a block that the round has visited holds
  exactly the instructions of the block that use the result of an instruction of the
  block (the consumers, not the producers); the Def set of any other block is empty.
\<close>

theorem def_set_holds_the_users:
  "set (DefSets (analyse TLI F order) BB) =
     (if BB \<in> set order
      then {UI. getParent F UI = Some BB \<and>
              (\<exists>I \<in> set (body_of F BB). VInst I \<in> set (operands (inst_at F UI)))}
      else {})"
  by (simp add: analyse_def analyse_Def no_sets_def local_users_def)

text \<open>
  Claim C2 as it is written fails: in the block \<open>a = x + y; b = a * z; ret b\<close> the
  instructions whose result the block uses are \<open>a\<close> and \<open>b\<close> (addresses 0 and 1), and
  the Def set holds \<open>b\<close> and the terminator (addresses 1 and 2).
\<close>

theorem def_set_counterexample:
  "DefSets (analyse no_lib prog_line (post_order prog_line 0)) 0 = [1, 2] \<and>
   filter (\<lambda>U. list_ex (\<lambda>I. VInst U \<in> set (operands (inst_at prog_line I))) (body_of prog_line 0))
     (body_of prog_line 0) = [0, 1]"
  by code_simp

subsection \<open>The In set\<close>

text \<open>
  Claim C3, as the code has it: the In set of a block holds exactly the members of its
  Use set and of its Out set that are identical to no member of its Def set; the filter
  applies to the Use set as it does to the Out set.
\<close>

theorem in_set_filters_use_and_out:
  "set (InSets (analyse TLI F order) BB) =
     {I \<in> set (UseSets (analyse TLI F order) BB) \<union> set (OutSets (analyse TLI F order) BB).
        \<not> (\<exists>DI \<in> set (DefSets (analyse TLI F order) BB). isIdenticalTo F I DI)}"
  using in_inv_analyse [of F TLI order] unfolding in_inv_def kept_def by blast

text \<open>
  Claim C3 as it is written fails: in the block \<open>a = x + y; b = a * z; ret b\<close> the
  instruction \<open>b\<close> (address 1) is in the Use set and not in the In set.
\<close>

theorem in_set_counterexample:
  "UseSets (analyse no_lib prog_line (post_order prog_line 0)) 0 = [0, 1] \<and>
   InSets (analyse no_lib prog_line (post_order prog_line 0)) 0 = [0]"
  by code_simp

subsection \<open>The Out set\<close>

text \<open>
  Claim C4 fails on the code. A key that enters \<open>count\<close> is not marked as seen, so an
  identical instruction later in the In set of the same successor is tallied on it a
  second time. With one successor whose In set holds two identical instructions (0 and
  1) the tally is 2, not 1, and the Out set is empty; with a second successor whose In
  set is empty the tally 2 is the number of successors, and the Out set holds an
  instruction that the In set of the second successor does not have.
\<close>

theorem out_set_tallies_twice:
  "InSets (analyse no_lib prog_twice (post_order prog_twice 0)) 1 = [0, 1] \<and>
   isIdenticalTo prog_twice 0 1 \<and> succs_of prog_twice 0 = [1] \<and>
   OutSets (analyse no_lib prog_twice (post_order prog_twice 0)) 0 = [] \<and>
   succs_of prog_fork 0 = [1, 2] \<and>
   InSets (analyse no_lib prog_fork (post_order prog_fork 0)) 1 = [0, 1] \<and>
   InSets (analyse no_lib prog_fork (post_order prog_fork 0)) 2 = [] \<and>
   OutSets (analyse no_lib prog_fork (post_order prog_fork 0)) 0 = [0]"
  by code_simp

subsection \<open>Calls\<close>

text \<open>
  Claim C5 fails on the code. \<^verbatim>\<open>isToBeIgnored\<close> returns the verdict of \<^verbatim>\<open>isFunctionPure\<close> for
  every call and never reaches the test of line 93 that the other instructions get, and
  \<^verbatim>\<open>isFunctionPure\<close> asks the library table for the name only. A call of \<open>putchar\<close>, which
  the table knows, which takes and returns an integer and which has a side effect, is
  relocatable; and of two such calls, one in the entry block and one in the block after
  it, the pass deletes the second.
\<close>

theorem side_effect_call_is_relocatable:
  "opcode call_putchar = Call \<and> mayHaveSideEffects call_putchar \<and>
   \<not> isToBeIgnored lib_putchar call_putchar \<and> isRelocatable lib_putchar call_putchar \<and>
   OutSets (analyse lib_putchar prog_putchar_twice (post_order prog_putchar_twice 0)) 0 = [2] \<and>
   run lib_putchar prog_putchar_twice = Some (Finished prog_putchar_once)"
  by code_simp

subsection \<open>Structural equivalence\<close>

text \<open>
  Claim C9: two instructions are identical exactly when they have the same opcode and
  the same operands in the same order, whatever their other attributes are.
\<close>

theorem identical_iff_opcode_and_operands:
  "isIdenticalTo F a b =
     (opcode (inst_at F a) = opcode (inst_at F b) \<and>
      operands (inst_at F a) = operands (inst_at F b))"
  by (rule isIdenticalTo_eq)

subsection \<open>What the hoister returns\<close>

text \<open>
  Claim C10: the hoister returns true when the Out set of the block is not empty and
  false when it is empty, whatever it has moved, redirected or deleted. It returns
  unless the Out set is not empty and the block has no terminator.
\<close>

theorem hoistInstructions_reports_out_nonempty:
  "(case hoistInstructions F BB Outs of
      None \<Rightarrow> Outs BB \<noteq> [] \<and> getTerminator F BB = None
    | Some (Changed, F') \<Rightarrow> Changed = (Outs BB \<noteq> []))"
  using hoist_loop_result [where F = F and BB = BB and Origs = "Outs BB" and Changed = False
      and del = "[]"]
  by (auto simp: hoistInstructions_def split: option.splits)

subsection \<open>A second run\<close>

text \<open>
  Claim C8: when the pass has returned on a function, a second run on the function it
  left makes one round, in which the hoister moves, redirects and deletes nothing, and
  returns the same function.
\<close>

theorem second_run_changes_nothing:
  assumes "run TLI F = Some (Finished F')"
  shows "round TLI F' = Some (False, F') \<and> run TLI F' = Some (Finished F')"
proof -
  from run_Finished_round [OF assms] have r: "round TLI F' = Some (False, F')" by simp
  then have "run TLI F' = Some (Finished F')"
    by (subst run.simps) simp
  with r show ?thesis by simp
qed

theorem second_run_witness:
  "run no_lib prog_diamond = Some (Finished prog_diamond_hoisted) \<and>
   run no_lib prog_diamond_hoisted = Some (Finished prog_diamond_hoisted)"
proof -
  have h: "run no_lib prog_diamond = Some (Finished prog_diamond_hoisted)"
    by code_simp
  from second_run_changes_nothing [OF h] h show ?thesis by simp
qed

subsection \<open>No use of a deleted instruction\<close>

text \<open>
  Claim C6: take a function in which every instruction stands once in one block and every
  operand that is an instruction is an instruction of the function, and candidates that
  are instructions of the function. When the loop of the hoister on a block ends, no
  instruction of the function uses an instruction that is marked for deletion; and
  after the deletions, which give the function that the hoister returns, every operand
  that is an instruction is still an instruction of the function.
\<close>

theorem no_dangling_uses:
  assumes "distinct (all_insts F)" and "uses_closed F" and "set (Outs BB) \<subseteq> set (all_insts F)"
    and "hoist_loop F BB (Outs BB) False [] = Some (F1, Changed, ToDelete)"
  shows "hoistInstructions F BB Outs = Some (Changed, erase_all F1 ToDelete) \<and>
    (\<forall>D \<in> set ToDelete. no_use_of F1 D) \<and> uses_closed (erase_all F1 ToDelete)"
proof -
  have "marked_ok F BB []" by (simp add: marked_ok_def)
  from hoist_loop_inv [OF assms(4,1) this assms(2,3)]
  have m: "marked_ok F1 BB ToDelete" and u: "uses_closed F1" by blast+
  from m have a: "\<forall>D \<in> set ToDelete. arena_unused F1 D" unfolding marked_ok_def by blast
  then have "\<forall>D \<in> set ToDelete. no_use_of F1 D"
    unfolding no_use_of_def arena_unused_def by blast
  moreover from u a have "uses_closed (erase_all F1 ToDelete)" by (rule uses_closed_erase_all)
  ultimately show ?thesis using assms(4) by (simp add: hoistInstructions_def)
qed

theorem no_dangling_uses_witness:
  "OutSets (analyse no_lib prog_diamond (post_order prog_diamond 0)) 0 = [1] \<and>
   hoist_loop prog_diamond 0 [1] False [] = Some (prog_diamond_moved, True, [3]) \<and>
   hoistInstructions prog_diamond 0 (OutSets (analyse no_lib prog_diamond (post_order prog_diamond 0))) =
     Some (True, prog_diamond_hoisted) \<and>
   no_use_of prog_diamond_moved 3 \<and> uses_closed prog_diamond_hoisted"
proof -
  let ?Outs = "OutSets (analyse no_lib prog_diamond (post_order prog_diamond 0))"
  have a: "?Outs 0 = [1]" by code_simp
  have d: "distinct (all_insts prog_diamond)" by code_simp
  have u: "uses_closed prog_diamond" by code_simp
  have o: "set (?Outs 0) \<subseteq> set (all_insts prog_diamond)" by code_simp
  have h: "hoist_loop prog_diamond 0 (?Outs 0) False [] = Some (prog_diamond_moved, True, [3])"
    by code_simp
  have e: "erase_all prog_diamond_moved [3] = prog_diamond_hoisted" by code_simp
  from no_dangling_uses [where Outs = "?Outs" and BB = 0, OF d u o h] h e a show ?thesis
    by simp
qed

subsection \<open>The pass returns\<close>

text \<open>
  Claim C7: on a function in which every instruction stands once in one block and every
  block ends in a terminator, the loop of the driver ends after finitely many rounds,
  without passing the null pointer, and the pass returns a function. Every round that
  reports a change moves an instruction into a block that the traversal meets later, or
  deletes one.
\<close>

theorem run_terminates:
  assumes "wf_func F"
  shows "\<exists>F'. run TLI F = Some (Finished F')"
  using assms
proof (induction F rule: measure_induct_rule [of mu_func])
  case (less F)
  from round_progress [OF less.prems, of TLI] show ?case
  proof
    assume "round TLI F = Some (False, F)"
    then have "run TLI F = Some (Finished F)" by (subst run.simps) simp
    then show ?thesis by blast
  next
    assume "\<exists>F1. round TLI F = Some (True, F1) \<and> wf_func F1 \<and> mu_func F1 < mu_func F"
    then obtain F1 where r: "round TLI F = Some (True, F1)" and w: "wf_func F1"
      and m: "mu_func F1 < mu_func F" by blast
    from less.IH [OF m w] obtain F' where "run TLI F1 = Some (Finished F')" by blast
    with r have "run TLI F = Some (Finished F')" by (subst run.simps) simp
    then show ?thesis by blast
  qed
qed

theorem run_terminates_witness:
  "wf_func prog_diamond \<and> run no_lib prog_diamond = Some (Finished prog_diamond_hoisted)"
proof -
  have w: "wf_func prog_diamond" by code_simp
  from run_terminates [OF w, of no_lib] obtain F' where
    "run no_lib prog_diamond = Some (Finished F')" by blast
  moreover have "run no_lib prog_diamond = Some (Finished prog_diamond_hoisted)" by code_simp
  ultimately show ?thesis using w by simp
qed

end
